theory Spec2Isabelle
  imports Complex_Main "HOL-Library.Multiset"
begin

text \<open>
  A shallow embedding of the acquisition core of the launcher. Where the embedded
  functions live in the sources:
  \<^item> \<open>shouldUseLibrary\<close>, \<open>getProgress\<close>, \<open>downloadGameFiles\<close>, \<open>createVirtualAssets\<close>:
    \<open>src/launcher.js\<close>;
  \<^item> \<open>downloadFile\<close>, \<open>verifyHash\<close>, \<open>downloadFilesParallel\<close>, and the game module's
    \<open>checkArgConditions\<close> and \<open>ensureVirtualAssetsSetup\<close>: \<open>src/utils.js\<close>;
  \<^item> \<open>identifyLibraryConflicts\<close>, \<open>resolveLibraryConflicts\<close>, \<open>processVersionFiles\<close>,
    \<open>backupJsonFile\<close>, \<open>restoreJsonFiles\<close>, \<open>computeFileHash\<close>, \<open>verifyAsset\<close>,
    \<open>createVirtualAssets\<close>: the asset verifier, \<open>unnamed/part_001\<close>.
  The definitions come first, section by section; the properties follow.
\<close>

section \<open>Rules of libraries and conditional arguments (launcher.js, game module)\<close>

text \<open>
  A rule as the descriptors carry it: an optional \<open>action\<close>, an optional \<open>os\<close>
  restriction with optional \<open>name\<close> and \<open>version\<close>, and possibly a \<open>features\<close>
  object (\<open>features\<close> is \<open>True\<close> when the rule has one).
\<close>

record os_cond =
  os_name :: "string option"
  os_version :: "string option"

record rule =
  action :: "string option"
  os :: "os_cond option"
  features :: bool

text \<open>
  What the evaluators read from the platform: \<open>currentOS\<close> is the result of
  \<open>getNativeOS()\<close>; \<open>version_test v\<close> is
  \<^verbatim>\<open>new RegExp(v).test(process.platform.version)\<close>, which is \<open>None\<close> when the
  pattern is not a regular expression and the constructor throws.
\<close>

record platform =
  currentOS :: string
  version_test :: "string \<Rightarrow> bool option"

text \<open>JavaScript truthiness of an optional string: present and not empty.\<close>

definition truthy :: "string option \<Rightarrow> bool" where
  "truthy s = (case s of None \<Rightarrow> False | Some v \<Rightarrow> v \<noteq> [])"

text \<open>
  The OS part of one iteration of \<open>shouldUseLibrary\<close>: \<open>Some False\<close> is
  \<open>continue\<close>, \<open>Some True\<close> falls through to the assignment, \<open>None\<close> is a throw.
  The version pattern is only built when the name did not already skip the rule.
\<close>

definition lib_rule_matches :: "platform \<Rightarrow> rule \<Rightarrow> bool option" where
  "lib_rule_matches pf r =
     (case os r of
        None \<Rightarrow> Some True
      | Some c \<Rightarrow>
          (if truthy (os_name c) \<and> os_name c \<noteq> Some (currentOS pf) then Some False
           else (case os_version c of
                   None \<Rightarrow> Some True
                 | Some v \<Rightarrow>
                     (if v = [] then Some True
                      else (case version_test pf v of
                              None \<Rightarrow> None
                            | Some t \<Rightarrow> Some t)))))"

text \<open>\<^verbatim>\<open>rule.action === 'disallow' ? false : true\<close>\<close>

definition lib_action :: "rule \<Rightarrow> bool" where
  "lib_action r = (if action r = Some ''disallow'' then False else True)"

text \<open>The loop of \<open>shouldUseLibrary\<close> with its running \<open>allowed\<close>.\<close>

fun lib_rules_loop :: "platform \<Rightarrow> bool \<Rightarrow> rule list \<Rightarrow> bool option" where
  "lib_rules_loop pf allowed [] = Some allowed"
| "lib_rules_loop pf allowed (r # rs) =
     (case lib_rule_matches pf r of
        None \<Rightarrow> None
      | Some False \<Rightarrow> lib_rules_loop pf allowed rs
      | Some True \<Rightarrow> lib_rules_loop pf (lib_action r) rs)"

text \<open>\<open>shouldUseLibrary\<close> on the \<open>rules\<close> of a library: a present list, even an empty
  one, starts from \<open>allowed = false\<close>; no list means \<open>true\<close>.\<close>

definition shouldUseLibrary :: "platform \<Rightarrow> rule list option \<Rightarrow> bool option" where
  "shouldUseLibrary pf library_rules =
     (case library_rules of
        None \<Rightarrow> Some True
      | Some rs \<Rightarrow> lib_rules_loop pf False rs)"

text \<open>
  One iteration of \<open>checkArgConditions\<close>: \<open>applies\<close> starts as
  \<^verbatim>\<open>rule.action === 'allow'\<close>, is negated by an OS name that differs, negated again
  by a version pattern that does not match, and set to \<open>false\<close> by a \<open>features\<close>
  object. Both OS tests run, so the pattern is built whenever a version is given.
\<close>

definition arg_rule_applies :: "platform \<Rightarrow> rule \<Rightarrow> bool option" where
  "arg_rule_applies pf r =
     (let a0 = (action r = Some ''allow'')
      in case os r of
           None \<Rightarrow> Some (if features r then False else a0)
         | Some c \<Rightarrow>
             (let a1 = (if truthy (os_name c) \<and> os_name c \<noteq> Some (currentOS pf)
                        then \<not> a0 else a0)
              in case os_version c of
                   None \<Rightarrow> Some (if features r then False else a1)
                 | Some v \<Rightarrow>
                     (if v = [] then Some (if features r then False else a1)
                      else (case version_test pf v of
                              None \<Rightarrow> None
                            | Some t \<Rightarrow>
                                Some (if features r then False
                                      else if \<not> t then \<not> a1 else a1)))))"

fun arg_rules_loop :: "platform \<Rightarrow> rule list \<Rightarrow> bool option" where
  "arg_rules_loop pf [] = Some True"
| "arg_rules_loop pf (r # rs) =
     (case arg_rule_applies pf r of
        None \<Rightarrow> None
      | Some False \<Rightarrow> Some False
      | Some True \<Rightarrow> arg_rules_loop pf rs)"

text \<open>\<open>checkArgConditions\<close> on the \<open>rules\<close> of an argument: no list means \<open>true\<close>.\<close>

definition checkArgConditions :: "platform \<Rightarrow> rule list option \<Rightarrow> bool option" where
  "checkArgConditions pf arg_rules =
     (case arg_rules of
        None \<Rightarrow> Some True
      | Some rs \<Rightarrow> arg_rules_loop pf rs)"

text \<open>The rule that decides \<open>shouldUseLibrary\<close>: the last one whose OS part matches.\<close>

definition last_matching :: "platform \<Rightarrow> rule list \<Rightarrow> rule option" where
  "last_matching pf rs =
     (case rev (filter (\<lambda>r. lib_rule_matches pf r = Some True) rs) of
        [] \<Rightarrow> None
      | r # _ \<Rightarrow> Some r)"

text \<open>Every version pattern of the rules is a regular expression.\<close>

definition patterns_valid :: "platform \<Rightarrow> rule list \<Rightarrow> bool" where
  "patterns_valid pf rs =
     list_all (\<lambda>r. case os r of
                      None \<Rightarrow> True
                    | Some c \<Rightarrow> (case os_version c of
                                   None \<Rightarrow> True
                                 | Some v \<Rightarrow> version_test pf v \<noteq> None)) rs"

text \<open>Fixtures: a Linux platform on which every pattern matches, and two rules without
  an OS restriction.\<close>

definition linux :: platform where
  "linux = \<lparr>currentOS = ''linux'', version_test = (\<lambda>v. Some True)\<rparr>"

definition allow_rule :: rule where
  "allow_rule = \<lparr>action = Some ''allow'', os = None, features = False\<rparr>"

definition disallow_rule :: rule where
  "disallow_rule = \<lparr>action = Some ''disallow'', os = None, features = False\<rparr>"

section \<open>Conflict resolver (asset-verifier.js)\<close>

text \<open>
  A library entry of a version descriptor. Only \<open>name\<close> (the coordinate string) is read by
  the conflict resolver; it may be absent. The repository \<open>url\<close> of the entry (here
  \<open>repo_url\<close>) and its \<open>rules\<close> are carried along untouched.
\<close>

record library =
  name :: "string option"
  repo_url :: "string option"
  rules :: "rule list option"

record descriptor =
  libraries :: "library list option"
  assetIndex :: "string option"
  mainClass :: "string option"

record conflict =
  baseName :: string
  minecraft :: "string option"
  fabric :: "string option"

text \<open>JavaScript's \<open>s.split(c)\<close> for a one-character separator: one more part than separators.\<close>

fun split_on :: "char \<Rightarrow> string \<Rightarrow> string list" where
  "split_on c [] = [[]]"
| "split_on c (x # xs) =
     (if x = c then [] # split_on c xs
      else (case split_on c xs of
              [] \<Rightarrow> [[x]]
            | p # ps \<Rightarrow> (x # p) # ps))"

text \<open>
  The key computation shared by the three places of the resolver:
  \<^verbatim>\<open>if (lib.name) { nameParts = lib.name.split(':'); if (nameParts.length >= 2) baseName = `${nameParts[0]}:${nameParts[1]}` }\<close>.
  An absent or empty name is falsy.
\<close>

definition base_name_of :: "library \<Rightarrow> string option" where
  "base_name_of lib =
     (case name lib of
        None \<Rightarrow> None
      | Some n \<Rightarrow>
          (if n = [] then None
           else (case split_on CHR '':'' n of
                   p0 # p1 # _ \<Rightarrow> Some (p0 @ '':'' @ p1)
                 | _ \<Rightarrow> None)))"

text \<open>\<^verbatim>\<open>json.libraries || []\<close>\<close>

definition libs_or_empty :: "descriptor \<Rightarrow> library list" where
  "libs_or_empty d = (case libraries d of None \<Rightarrow> [] | Some ls \<Rightarrow> ls)"

text \<open>The first loop of \<open>identifyLibraryConflicts\<close>: a later entry replaces an earlier one
  under the same key (\<open>Map.set\<close>).\<close>

fun build_lib_map :: "(string \<rightharpoonup> library) \<Rightarrow> library list \<Rightarrow> (string \<rightharpoonup> library)" where
  "build_lib_map m [] = m"
| "build_lib_map m (lib # ls) =
     (case base_name_of lib of
        None \<Rightarrow> build_lib_map m ls
      | Some k \<Rightarrow> build_lib_map (m(k \<mapsto> lib)) ls)"

text \<open>The second loop: one pass over the overlay libraries, pushing conflicts in order.\<close>

fun check_fabric :: "(string \<rightharpoonup> library) \<Rightarrow> library list \<Rightarrow> conflict list" where
  "check_fabric m [] = []"
| "check_fabric m (fl # fls) =
     (case base_name_of fl of
        None \<Rightarrow> check_fabric m fls
      | Some k \<Rightarrow>
          (case m k of
             None \<Rightarrow> check_fabric m fls
           | Some ml \<Rightarrow>
               (if name ml \<noteq> name fl
                then \<lparr>baseName = k, minecraft = name ml, fabric = name fl\<rparr> # check_fabric m fls
                else check_fabric m fls)))"

definition identifyLibraryConflicts :: "descriptor \<Rightarrow> descriptor \<Rightarrow> conflict list" where
  "identifyLibraryConflicts minecraftJson fabricJson =
     check_fabric (build_lib_map Map.empty (libs_or_empty minecraftJson))
       (libs_or_empty fabricJson)"

text \<open>The filter predicate of \<open>resolveLibraryConflicts\<close>.\<close>

definition keep_lib :: "conflict \<Rightarrow> library \<Rightarrow> bool" where
  "keep_lib c lib =
     (case base_name_of lib of
        None \<Rightarrow> True
      | Some k \<Rightarrow> k \<noteq> baseName c)"

text \<open>
  \<open>resolveLibraryConflicts\<close> mutates the base descriptor once per conflict and never
  writes to the overlay; the model returns both descriptors.
\<close>

fun resolveLibraryConflicts ::
  "descriptor \<Rightarrow> descriptor \<Rightarrow> conflict list \<Rightarrow> descriptor \<times> descriptor" where
  "resolveLibraryConflicts minecraftJson fabricJson [] = (minecraftJson, fabricJson)"
| "resolveLibraryConflicts minecraftJson fabricJson (c # cs) =
     resolveLibraryConflicts
       (minecraftJson\<lparr>libraries := Some (filter (keep_lib c) (libs_or_empty minecraftJson))\<rparr>)
       fabricJson cs"

text \<open>The in-memory part of \<open>processVersionFiles\<close>: detect, then resolve when there is
  at least one conflict.\<close>

definition resolve_pass :: "descriptor \<Rightarrow> descriptor \<Rightarrow> descriptor \<times> descriptor" where
  "resolve_pass minecraftJson fabricJson =
     (let conflicts = identifyLibraryConflicts minecraftJson fabricJson
      in if length conflicts > 0
         then resolveLibraryConflicts minecraftJson fabricJson conflicts
         else (minecraftJson, fabricJson))"

text \<open>The base library that \<open>identifyLibraryConflicts\<close> finds under a key: the last one
  in list order carrying it.\<close>

fun last_with :: "string \<Rightarrow> library list \<Rightarrow> library option" where
  "last_with k [] = None"
| "last_with k (b # bs) =
     (case last_with k bs of
        Some x \<Rightarrow> Some x
      | None \<Rightarrow> (if base_name_of b = Some k then Some b else None))"

subsection \<open>The resolver as the specification words it\<close>

text \<open>
  Two libraries conflict when they share the same (group, artifact) key and differ in the
  full coordinate. \<open>spec_conflicts\<close> lists every such pair (overlay order, then base
  order); \<open>spec_resolved\<close> drops from the base exactly the entries that conflict with
  some overlay entry.
\<close>

definition conflicting :: "library \<Rightarrow> library \<Rightarrow> bool" where
  "conflicting b f \<longleftrightarrow>
     base_name_of b \<noteq> None \<and> base_name_of b = base_name_of f \<and> name b \<noteq> name f"

definition spec_conflicts :: "library list \<Rightarrow> library list \<Rightarrow> conflict list" where
  "spec_conflicts base ov =
     concat (map (\<lambda>f. map (\<lambda>b. \<lparr>baseName = (case base_name_of f of Some k \<Rightarrow> k | None \<Rightarrow> []),
                                 minecraft = name b, fabric = name f\<rparr>)
                          (filter (\<lambda>b. conflicting b f) base)) ov)"

definition spec_resolved :: "library list \<Rightarrow> library list \<Rightarrow> library list" where
  "spec_resolved base ov = filter (\<lambda>b. \<not> list_ex (conflicting b) ov) base"

text \<open>No two keyed libraries of the list share a key.\<close>

definition distinct_keys :: "library list \<Rightarrow> bool" where
  "distinct_keys ls = distinct (map base_name_of (filter (\<lambda>b. base_name_of b \<noteq> None) ls))"

text \<open>Fixtures: a library given by its coordinate, a descriptor given by its libraries.\<close>

definition lib :: "string \<Rightarrow> library" where
  "lib n = \<lparr>name = Some n, repo_url = None, rules = None\<rparr>"

definition desc :: "library list \<Rightarrow> descriptor" where
  "desc ls = \<lparr>libraries = Some ls, assetIndex = None, mainClass = None\<rparr>"


section \<open>Descriptor backup and restore (asset-verifier.js, launcher.js)\<close>

text \<open>
  The descriptor documents live in a file tree, a map from paths to contents. A content is
  the text that \<open>readFileSync(path, 'utf8')\<close> returns and \<open>writeFileSync\<close> stores.
  \<open>modifiedJsonFiles\<close> is the verifier's JavaScript \<open>Map\<close>: an association list in
  insertion order with one entry per key. A read or a write of the file tree may throw;
  \<open>io_env\<close> says which ones succeed during one operation.
\<close>

type_synonym path = string
type_synonym content = string

record io_env =
  can_read :: "path \<Rightarrow> bool"
  can_write :: "path \<Rightarrow> bool"

record verifier_state =
  disk :: "path \<rightharpoonup> content"
  modifiedJsonFiles :: "(path \<times> content) list"

record restore_result =
  success :: bool
  restored :: "path list"

text \<open>\<open>Map.set\<close>: replace the value of a present key in place, append a new key.\<close>

fun map_set :: "path \<Rightarrow> content \<Rightarrow> (path \<times> content) list \<Rightarrow> (path \<times> content) list" where
  "map_set k v [] = [(k, v)]"
| "map_set k v ((k', v') # es) =
     (if k' = k then (k, v) # es else (k', v') # map_set k v es)"

text \<open>\<open>backupJsonFile\<close>: a missing file is skipped; a failing read is caught and logged.\<close>

definition backupJsonFile :: "io_env \<Rightarrow> path \<Rightarrow> verifier_state \<Rightarrow> verifier_state" where
  "backupJsonFile env jsonPath st =
     (case disk st jsonPath of
        None \<Rightarrow> st
      | Some c \<Rightarrow>
          (if can_read env jsonPath
           then st\<lparr>modifiedJsonFiles := map_set jsonPath c (modifiedJsonFiles st)\<rparr>
           else st))"

text \<open>The loop of \<open>restoreJsonFiles\<close>: a failing write is caught per entry and the entry
  is left out of \<open>restored\<close>.\<close>

fun restore_loop ::
  "io_env \<Rightarrow> (path \<times> content) list \<Rightarrow> (path \<rightharpoonup> content) \<Rightarrow> path list
     \<Rightarrow> (path \<rightharpoonup> content) \<times> path list" where
  "restore_loop env [] fs acc = (fs, acc)"
| "restore_loop env ((filePath, c) # es) fs acc =
     (if can_write env filePath
      then restore_loop env es (fs(filePath \<mapsto> c)) (acc @ [filePath])
      else restore_loop env es fs acc)"

text \<open>\<open>restoreJsonFiles\<close>: after the loop the map is cleared, whatever the loop did.\<close>

definition restoreJsonFiles :: "io_env \<Rightarrow> verifier_state \<Rightarrow> verifier_state \<times> restore_result" where
  "restoreJsonFiles env st =
     (case restore_loop env (modifiedJsonFiles st) (disk st) [] of
        (fs', done) \<Rightarrow>
          (\<lparr>disk = fs', modifiedJsonFiles = []\<rparr>, \<lparr>success = True, restored = done\<rparr>))"

text \<open>
  \<open>readFileSync\<close> followed by \<open>JSON.parse\<close>; either may throw. The JSON parser and
  printer are the runtime's, taken as parameters \<open>parse\<close> and \<open>stringify\<close>.
\<close>

definition read_json ::
  "io_env \<Rightarrow> (content \<Rightarrow> descriptor option) \<Rightarrow> verifier_state \<Rightarrow> path \<Rightarrow> descriptor option" where
  "read_json env parse st p =
     (case disk st p of
        None \<Rightarrow> None
      | Some c \<Rightarrow> (if can_read env p then parse c else None))"

text \<open>The asset index of one descriptor fills in for a missing one of the other.\<close>

definition fix_asset_index :: "descriptor \<Rightarrow> descriptor \<Rightarrow> descriptor \<times> descriptor" where
  "fix_asset_index minecraftJson fabricJson =
     (if assetIndex minecraftJson = None \<and> assetIndex fabricJson \<noteq> None
      then (minecraftJson\<lparr>assetIndex := assetIndex fabricJson\<rparr>, fabricJson)
      else if assetIndex fabricJson = None \<and> assetIndex minecraftJson \<noteq> None
      then (minecraftJson, fabricJson\<lparr>assetIndex := assetIndex minecraftJson\<rparr>)
      else (minecraftJson, fabricJson))"

text \<open>The two \<open>writeFileSync\<close> calls after a resolution; the first failing one throws.\<close>

definition write_back ::
  "io_env \<Rightarrow> path \<Rightarrow> content \<Rightarrow> path \<Rightarrow> content \<Rightarrow> nat \<Rightarrow> verifier_state
     \<Rightarrow> verifier_state \<times> (string + nat)" where
  "write_back env minecraftJsonPath mc_text fabricJsonPath fab_text n st =
     (if \<not> can_write env minecraftJsonPath then (st, Inl ''write error'')
      else if \<not> can_write env fabricJsonPath
      then (st\<lparr>disk := (disk st)(minecraftJsonPath \<mapsto> mc_text)\<rparr>, Inl ''write error'')
      else (st\<lparr>disk := (disk st)(minecraftJsonPath \<mapsto> mc_text, fabricJsonPath \<mapsto> fab_text)\<rparr>,
            Inr n))"

text \<open>The body of \<open>processVersionFiles\<close> once both documents are parsed.\<close>

definition process_loaded ::
  "io_env \<Rightarrow> (descriptor \<Rightarrow> content) \<Rightarrow> path \<Rightarrow> path \<Rightarrow> descriptor \<Rightarrow> descriptor
     \<Rightarrow> verifier_state \<Rightarrow> verifier_state \<times> (string + nat)" where
  "process_loaded env stringify minecraftJsonPath fabricJsonPath mj fj st =
     (case fix_asset_index mj fj of
        (minecraftJson, fabricJson) \<Rightarrow>
          (let conflicts = identifyLibraryConflicts minecraftJson fabricJson
           in if length conflicts > 0
              then (case resolveLibraryConflicts minecraftJson fabricJson conflicts of
                      (mj2, fj2) \<Rightarrow>
                        write_back env minecraftJsonPath (stringify mj2)
                          fabricJsonPath (stringify fj2) (length conflicts) st)
              else (st, Inr 0)))"

text \<open>
  \<open>processVersionFiles\<close> on the two descriptor paths. It never throws: the result is
  \<open>Inl\<close> of the error message or \<open>Inr\<close> of the number of conflicts.
\<close>

definition processVersionFiles ::
  "io_env \<Rightarrow> (content \<Rightarrow> descriptor option) \<Rightarrow> (descriptor \<Rightarrow> content) \<Rightarrow> path \<Rightarrow> path
     \<Rightarrow> verifier_state \<Rightarrow> verifier_state \<times> (string + nat)" where
  "processVersionFiles env parse stringify minecraftJsonPath fabricJsonPath st =
     (if disk st minecraftJsonPath = None then (st, Inl ''Minecraft JSON file not found'')
      else if disk st fabricJsonPath = None then (st, Inl ''Fabric JSON file not found'')
      else
        (let st2 = backupJsonFile env fabricJsonPath (backupJsonFile env minecraftJsonPath st)
         in (case read_json env parse st2 minecraftJsonPath of
               None \<Rightarrow> (st2, Inl ''read or parse error'')
             | Some mj \<Rightarrow>
                 (case read_json env parse st2 fabricJsonPath of
                    None \<Rightarrow> (st2, Inl ''read or parse error'')
                  | Some fj \<Rightarrow>
                      process_loaded env stringify minecraftJsonPath fabricJsonPath mj fj st2))))"

text \<open>
  The part of \<open>downloadGameFiles\<close> from the pre-processing step on. The acquisition
  steps between pre-processing and restore (\<open>downloadDependencies\<close>,
  \<open>transferFabricLoaderJar\<close>) are a parameter \<open>acquire\<close>: they change the file tree in
  some way and either return or throw (\<open>True\<close>). \<open>late_throw\<close> says whether a step
  after the restore throws. Every throw lands in the handler, which restores again.
  The result is the final state and the \<open>success\<close> flag returned.
\<close>

definition downloadGameFiles ::
  "io_env \<Rightarrow> io_env \<Rightarrow> (content \<Rightarrow> descriptor option) \<Rightarrow> (descriptor \<Rightarrow> content) \<Rightarrow> path \<Rightarrow> path
     \<Rightarrow> ((path \<rightharpoonup> content) \<Rightarrow> (path \<rightharpoonup> content) \<times> bool) \<Rightarrow> bool
     \<Rightarrow> verifier_state \<Rightarrow> verifier_state \<times> bool" where
  "downloadGameFiles env env_restore parse stringify minecraftJsonPath fabricJsonPath
       acquire late_throw st =
     (case processVersionFiles env parse stringify minecraftJsonPath fabricJsonPath st of
        (st1, modifyResult) \<Rightarrow>
          (case acquire (disk st1) of
             (fs2, threw) \<Rightarrow>
               let st2 = st1\<lparr>disk := fs2\<rparr>
               in if threw then (fst (restoreJsonFiles env_restore st2), False)
                  else (case restoreJsonFiles env_restore st2 of
                          (st3, restoreResult) \<Rightarrow>
                            if late_throw then (fst (restoreJsonFiles env_restore st3), False)
                            else (st3, True))))"

text \<open>Fixtures: an environment in which every read and write succeeds, and a parser and
  printer for two one-letter documents.\<close>

definition io_ok :: io_env where
  "io_ok = \<lparr>can_read = (\<lambda>p. True), can_write = (\<lambda>p. True)\<rparr>"

definition toy_parse :: "content \<Rightarrow> descriptor option" where
  "toy_parse c =
     (if c = ''M'' then Some (desc [lib ''com.example:foo:1.0''])
      else if c = ''F'' then Some (desc [lib ''com.example:foo:2.0''])
      else None)"

definition toy_stringify :: "descriptor \<Rightarrow> content" where
  "toy_stringify d = (if libs_or_empty d = [] then ''ResolvedM'' else ''ResolvedF'')"

section \<open>JavaScript numbers\<close>

subsection \<open>Double-precision arithmetic\<close>

text \<open>
  JavaScript's \<open>/\<close> and \<open>*\<close> on numbers are IEEE 754 binary64 operations: the exact
  result rounded to the nearest value with a 53-bit significand, ties to the even
  significand. Doubles are modelled by the rationals they denote. \<open>to_double\<close> is that
  rounding in the normal range (no overflow to infinity, no subnormals), which is where
  quotients of counters and their products with 100 lie.
\<close>

text \<open>The number of binary digits of a positive integer.\<close>

function bit_length :: "int \<Rightarrow> int" where
  "bit_length n = (if n \<le> 0 then 0 else 1 + bit_length (n div 2))"
  by pat_completeness auto
termination
  by (relation "measure nat") auto

declare bit_length.simps [simp del]

definition pow2 :: "int \<Rightarrow> rat" where
  "pow2 e = (if 0 \<le> e then 2 ^ nat e else 1 / 2 ^ nat (- e))"

text \<open>The binary exponent \<open>e\<close> of a positive rational: \<open>2^e \<le> x < 2^(e+1)\<close>.\<close>

definition binade :: "rat \<Rightarrow> int" where
  "binade x =
     (case quotient_of x of
        (n, d) \<Rightarrow>
          (let k = bit_length n - bit_length d
           in if pow2 k \<le> x then k else k - 1))"

definition round_half_even :: "rat \<Rightarrow> int" where
  "round_half_even x =
     (let f = \<lfloor>x\<rfloor>; d = x - of_int f
      in if d < 1 / 2 then f
         else if 1 / 2 < d then f + 1
         else if even f then f else f + 1)"

definition to_double :: "rat \<Rightarrow> rat" where
  "to_double x =
     (if x = 0 then 0
      else (let u = pow2 (binade \<bar>x\<bar> - 52)
            in sgn x * of_int (round_half_even (\<bar>x\<bar> / u)) * u))"

subsection \<open>Numbers with their special values\<close>

text \<open>
  A JavaScript number is a finite double or one of \<open>Infinity\<close>, \<open>-Infinity\<close>, \<open>NaN\<close>.
  Division by zero does not throw: it gives \<open>NaN\<close> for \<open>0 / 0\<close> and an infinity
  otherwise. The negative zero is not distinguished from zero; the quantities modelled
  here are counts and never produce it.
\<close>

datatype number = Num rat | Infinity | NegInfinity | NaN

fun js_div :: "number \<Rightarrow> number \<Rightarrow> number" where
  "js_div (Num a) (Num b) =
     (if b = 0
      then (if a = 0 then NaN else if 0 < a then Infinity else NegInfinity)
      else Num (to_double (a / b)))"
| "js_div NaN y = NaN"
| "js_div x NaN = NaN"
| "js_div (Num a) y = Num 0"
| "js_div Infinity (Num b) = (if 0 \<le> b then Infinity else NegInfinity)"
| "js_div NegInfinity (Num b) = (if 0 \<le> b then NegInfinity else Infinity)"
| "js_div x y = NaN"

fun js_mul :: "number \<Rightarrow> number \<Rightarrow> number" where
  "js_mul (Num a) (Num b) = Num (to_double (a * b))"
| "js_mul NaN y = NaN"
| "js_mul x NaN = NaN"
| "js_mul Infinity (Num b) =
     (if b = 0 then NaN else if 0 < b then Infinity else NegInfinity)"
| "js_mul NegInfinity (Num b) =
     (if b = 0 then NaN else if 0 < b then NegInfinity else Infinity)"
| "js_mul (Num a) Infinity =
     (if a = 0 then NaN else if 0 < a then Infinity else NegInfinity)"
| "js_mul (Num a) NegInfinity =
     (if a = 0 then NaN else if 0 < a then NegInfinity else Infinity)"
| "js_mul Infinity Infinity = Infinity"
| "js_mul NegInfinity NegInfinity = Infinity"
| "js_mul x y = NegInfinity"

text \<open>\<open>Math.floor\<close>\<close>

fun js_floor :: "number \<Rightarrow> number" where
  "js_floor (Num a) = Num (of_int \<lfloor>a\<rfloor>)"
| "js_floor x = x"

text \<open>\<open>Math.min\<close> of two numbers\<close>

fun math_min :: "number \<Rightarrow> number \<Rightarrow> number" where
  "math_min NaN y = NaN"
| "math_min x NaN = NaN"
| "math_min NegInfinity y = NegInfinity"
| "math_min x NegInfinity = NegInfinity"
| "math_min Infinity y = y"
| "math_min x Infinity = x"
| "math_min (Num a) (Num b) = Num (min a b)"

section \<open>Download progress (launcher.js)\<close>

text \<open>
  The tracked progress. \<open>total\<close> and \<open>completed\<close> are JavaScript numbers that the
  launcher only sets to 0, increments and increases by list lengths: natural numbers,
  exactly representable as doubles (below \<open>2^53\<close>).
\<close>

record downloadProgress =
  total :: nat
  completed :: nat
  current :: string

record progress = downloadProgress +
  percentage :: number

text \<open>
  \<open>getProgress\<close>:
  \<^verbatim>\<open>percentage: total === 0 ? 0 : Math.floor((completed / total) * 100)\<close>.
\<close>

definition getProgress :: "downloadProgress \<Rightarrow> progress" where
  "getProgress dp =
     \<lparr>total = total dp, completed = completed dp, current = current dp,
      percentage =
        (if total dp = 0 then Num 0
         else js_floor (js_mul (js_div (Num (of_nat (completed dp))) (Num (of_nat (total dp))))
                          (Num 100)))\<rparr>"

section \<open>Asset store: verification and virtual assets (asset-verifier.js, launcher.js, game module)\<close>

text \<open>
  A file's content is its bytes. The SHA-1 function of the runtime's \<open>crypto\<close> module is
  a parameter \<open>sha1\<close>, from the bytes to the hexadecimal digest.
\<close>

text \<open>\<open>toLowerCase\<close> on the characters a digest comparison can involve (\<open>A\<close> to \<open>Z\<close>).\<close>

definition lower_char :: "char \<Rightarrow> char" where
  "lower_char c =
     (case map_of (zip ''ABCDEFGHIJKLMNOPQRSTUVWXYZ'' ''abcdefghijklmnopqrstuvwxyz'') c of
        None \<Rightarrow> c
      | Some l \<Rightarrow> l)"

definition toLowerCase :: "string \<Rightarrow> string" where
  "toLowerCase s = map lower_char s"

text \<open>\<open>computeFileHash\<close>: the digest of the file's bytes, or a rejection (\<open>None\<close>) when
  the stream fails.\<close>

definition computeFileHash ::
  "io_env \<Rightarrow> (content \<Rightarrow> string) \<Rightarrow> (path \<rightharpoonup> content) \<Rightarrow> path \<Rightarrow> string option" where
  "computeFileHash env sha1 fs filePath =
     (case fs filePath of
        None \<Rightarrow> None
      | Some bytes \<Rightarrow> (if can_read env filePath then Some (sha1 bytes) else None))"

record verify_result =
  valid :: bool
  reason :: "string option"

definition verifyAsset ::
  "io_env \<Rightarrow> (content \<Rightarrow> string) \<Rightarrow> (path \<rightharpoonup> content) \<Rightarrow> path \<Rightarrow> string \<Rightarrow> verify_result" where
  "verifyAsset env sha1 fs assetPath expectedHash =
     (if fs assetPath = None then \<lparr>valid = False, reason = Some ''file_not_found''\<rparr>
      else (case computeFileHash env sha1 fs assetPath of
              None \<Rightarrow> \<lparr>valid = False, reason = Some ''error''\<rparr>
            | Some actualHash \<Rightarrow>
                (if toLowerCase actualHash \<noteq> toLowerCase expectedHash
                 then \<lparr>valid = False, reason = Some ''hash_mismatch''\<rparr>
                 else \<lparr>valid = True, reason = None\<rparr>)))"

text \<open>\<open>verifyHash\<close> of the utilities and of the launcher: the comparison, or a rejection
  (\<open>None\<close>) when the file cannot be streamed.\<close>

definition verifyHash ::
  "io_env \<Rightarrow> (content \<Rightarrow> string) \<Rightarrow> (path \<rightharpoonup> content) \<Rightarrow> path \<Rightarrow> string \<Rightarrow> bool option" where
  "verifyHash env sha1 fs filePath expectedHash =
     (case computeFileHash env sha1 fs filePath of
        None \<Rightarrow> None
      | Some fileHash \<Rightarrow> Some (toLowerCase fileHash = toLowerCase expectedHash))"

subsection \<open>Virtual assets\<close>

text \<open>
  An asset index: the \<open>virtual\<close> flag and the \<open>objects\<close> in the order of
  \<open>Object.entries\<close>, each a logical asset name with its hash. Paths are joined with
  \<open>/\<close>.
\<close>

record asset_index =
  virtual :: bool
  objects :: "(string \<times> string) list"

definition object_path :: "path \<Rightarrow> string \<Rightarrow> path" where
  "object_path assets_dir hash = assets_dir @ ''/objects/'' @ take 2 hash @ ''/'' @ hash"

definition virtual_path :: "path \<Rightarrow> string \<Rightarrow> path" where
  "virtual_path assets_dir assetPath = assets_dir @ ''/virtual/legacy/'' @ assetPath"

text \<open>
  The loop of \<open>createVirtualAssets\<close> (the launcher's and the verifier's are the same):
  when the source object exists it is copied with \<open>copyFileSync\<close>, which replaces an
  existing destination; a throwing copy is caught and the object skipped.
\<close>

fun createVirtualAssets_loop ::
  "io_env \<Rightarrow> path \<Rightarrow> (string \<times> string) list \<Rightarrow> (path \<rightharpoonup> content) \<Rightarrow> nat
     \<Rightarrow> (path \<rightharpoonup> content) \<times> nat" where
  "createVirtualAssets_loop env assets_dir [] fs processed = (fs, processed)"
| "createVirtualAssets_loop env assets_dir ((assetPath, hash) # rest) fs processed =
     (let srcPath = object_path assets_dir hash;
          destPath = virtual_path assets_dir assetPath
      in case fs srcPath of
           None \<Rightarrow> createVirtualAssets_loop env assets_dir rest fs processed
         | Some bytes \<Rightarrow>
             (if can_read env srcPath \<and> can_write env destPath
              then createVirtualAssets_loop env assets_dir rest (fs(destPath \<mapsto> bytes))
                     (processed + 1)
              else createVirtualAssets_loop env assets_dir rest fs processed))"

definition createVirtualAssets ::
  "io_env \<Rightarrow> path \<Rightarrow> asset_index \<Rightarrow> (path \<rightharpoonup> content) \<Rightarrow> (path \<rightharpoonup> content) \<times> nat" where
  "createVirtualAssets env assets_dir assetIndexJson fs =
     createVirtualAssets_loop env assets_dir (objects assetIndexJson) fs 0"

text \<open>The callers run it only for a virtual index:
  \<^verbatim>\<open>if (assetIndexJson.virtual === true) await this.createVirtualAssets(assetIndexJson)\<close>.\<close>

definition materialize ::
  "io_env \<Rightarrow> path \<Rightarrow> asset_index \<Rightarrow> (path \<rightharpoonup> content) \<Rightarrow> (path \<rightharpoonup> content)" where
  "materialize env assets_dir assetIndexJson fs =
     (if virtual assetIndexJson then fst (createVirtualAssets env assets_dir assetIndexJson fs) else fs)"

text \<open>
  The copy loop of the game module's \<open>ensureVirtualAssetsSetup\<close>: the same walk, but an
  object is copied only when \<^verbatim>\<open>fs.existsSync(srcPath) && !fs.existsSync(destPath)\<close>.
\<close>

fun ensure_copy_loop ::
  "io_env \<Rightarrow> path \<Rightarrow> (string \<times> string) list \<Rightarrow> (path \<rightharpoonup> content) \<Rightarrow> nat
     \<Rightarrow> (path \<rightharpoonup> content) \<times> nat" where
  "ensure_copy_loop env assets_dir [] fs processed = (fs, processed)"
| "ensure_copy_loop env assets_dir ((assetPath, hash) # rest) fs processed =
     (let srcPath = object_path assets_dir hash;
          destPath = virtual_path assets_dir assetPath
      in case fs srcPath of
           None \<Rightarrow> ensure_copy_loop env assets_dir rest fs processed
         | Some bytes \<Rightarrow>
             (if fs destPath = None \<and> can_read env srcPath \<and> can_write env destPath
              then ensure_copy_loop env assets_dir rest (fs(destPath \<mapsto> bytes)) (processed + 1)
              else ensure_copy_loop env assets_dir rest fs processed))"

text \<open>\<open>ensureVirtualAssetsSetup\<close> runs that loop for a virtual index whose virtual
  directory is empty; \<open>hasContent\<close> is the outcome of its \<open>readdirSync\<close> test.\<close>

definition ensureVirtualAssetsSetup ::
  "io_env \<Rightarrow> path \<Rightarrow> asset_index \<Rightarrow> bool \<Rightarrow> (path \<rightharpoonup> content) \<Rightarrow> (path \<rightharpoonup> content)" where
  "ensureVirtualAssetsSetup env assets_dir assetIndexJson hasContent fs =
     (if virtual assetIndexJson \<and> \<not> hasContent
      then fst (ensure_copy_loop env assets_dir (objects assetIndexJson) fs 0)
      else fs)"

text \<open>Fixture: a stand-in digest function for examples, which separates all contents.\<close>

definition toy_sha1 :: "content \<Rightarrow> string" where
  "toy_sha1 bytes = bytes"

section \<open>Batch download (utilities module)\<close>

text \<open>
  A download task as \<open>downloadAssets\<close> queues it. The field names carry a prefix
  because \<open>url\<close> is a field of a library too.
\<close>

record download_task =
  task_url :: string
  task_destination :: path
  task_expectedHash :: "string option"
  task_retries :: "int option"

text \<open>
  The state of one call of \<open>downloadFilesParallel\<close>. JavaScript runs one callback at a
  time, so the state changes only in the synchronous stretches between two \<open>await\<close>s.
  \<open>inProgress\<close> lists the tasks whose \<open>downloadFile\<close> promise is pending, one per busy
  worker; \<open>results\<close> and \<open>errors\<close> list the tasks of the entries pushed.
\<close>

record pool =
  queue :: "download_task list"
  inProgress :: "download_task list"
  results :: "download_task list"
  errors :: "download_task list"

record batch_result =
  batch_total :: nat
  successful :: nat
  failed :: nat

text \<open>\<open>processNext\<close> up to its \<open>await\<close>: nothing on an empty queue, else shift a task
  and mark it in progress.\<close>

definition processNext :: "pool \<Rightarrow> pool" where
  "processNext p =
     (case queue p of
        [] \<Rightarrow> p
      | file # rest \<Rightarrow> p\<lparr>queue := rest, inProgress := inProgress p @ [file]\<rparr>)"

text \<open>
  The start loop,
  \<^verbatim>\<open>const initialBatch = Math.min(concurrency, queue.length);\<close>
  \<^verbatim>\<open>for (let i = 0; i < initialBatch; i++) startPromises.push(processNext());\<close>.
  \<open>concurrency\<close> is whatever number the caller passes; nothing makes it an integer or
  positive. The loop body runs once for every natural number \<open>i\<close> below \<open>initialBatch\<close>:
  \<open>\<lceil>initialBatch\<rceil>\<close> times for a positive finite bound, never when the bound is not
  positive or is \<open>NaN\<close> (the comparison is false), and without end for \<open>Infinity\<close>
  (\<open>None\<close>), a value that \<open>Math.min\<close> with the finite queue length does not produce.
\<close>

fun start_workers :: "nat \<Rightarrow> pool \<Rightarrow> pool" where
  "start_workers 0 p = p"
| "start_workers (Suc n) p = start_workers n (processNext p)"

definition initialBatch :: "number \<Rightarrow> download_task list \<Rightarrow> number" where
  "initialBatch concurrency files = math_min concurrency (Num (of_nat (length files)))"

fun loop_count :: "number \<Rightarrow> nat option" where
  "loop_count (Num b) = Some (nat \<lceil>b\<rceil>)"
| "loop_count Infinity = None"
| "loop_count NegInfinity = Some 0"
| "loop_count NaN = Some 0"

definition start :: "number \<Rightarrow> download_task list \<Rightarrow> pool option" where
  "start concurrency files =
     (case loop_count (initialBatch concurrency files) of
        None \<Rightarrow> None
      | Some n \<Rightarrow>
          Some (start_workers n \<lparr>queue = files, inProgress = [], results = [], errors = []\<rparr>))"

text \<open>
  One pending download settles: the \<open>i\<close>-th task in progress succeeds (\<open>ok\<close>) or
  throws. Its entry is pushed to \<open>results\<close> or \<open>errors\<close>, the \<open>finally\<close> block takes it
  out of \<open>inProgress\<close> and, when the queue is not empty, calls \<open>processNext\<close>, all in
  one synchronous stretch. \<open>None\<close>: there is no such pending download.
\<close>

definition settle :: "nat \<Rightarrow> bool \<Rightarrow> pool \<Rightarrow> pool option" where
  "settle i ok p =
     (if i < length (inProgress p)
      then (let file = inProgress p ! i;
                p1 = (if ok then p\<lparr>results := results p @ [file]\<rparr>
                      else p\<lparr>errors := errors p @ [file]\<rparr>);
                p2 = p1\<lparr>inProgress := take i (inProgress p) @ drop (Suc i) (inProgress p)\<rparr>
            in Some (if queue p2 \<noteq> [] then processNext p2 else p2))
      else None)"

text \<open>A run is any order and outcome of settlements.\<close>

fun run :: "(nat \<times> bool) list \<Rightarrow> pool \<Rightarrow> pool option" where
  "run [] p = Some p"
| "run ((i, ok) # sched) p =
     (case settle i ok p of
        None \<Rightarrow> None
      | Some p' \<Rightarrow> run sched p')"

text \<open>All worker promises are resolved, so \<open>Promise.all\<close> resumes the caller, when no
  download is pending.\<close>

definition finished :: "pool \<Rightarrow> bool" where
  "finished p \<longleftrightarrow> inProgress p = []"

definition batch_summary :: "download_task list \<Rightarrow> pool \<Rightarrow> batch_result" where
  "batch_summary files p =
     \<lparr>batch_total = length files, successful = length (results p),
      failed = length (errors p)\<rparr>"

text \<open>Fixtures: three tasks.\<close>

definition task :: "string \<Rightarrow> download_task" where
  "task u = \<lparr>task_url = u, task_destination = ''objects/'' @ u, task_expectedHash = Some u,
            task_retries = None\<rparr>"

section \<open>Single-file download (utilities module)\<close>

text \<open>
  What one \<open>https.get\<close> can deliver: a redirect (a 3xx status with a location), a
  success (a 2xx status, with the body that is piped to the temporary file), any other
  status, or a request error or timeout. The network is the list of the responses the
  successive requests will get; a request beyond the list gets a request error.
\<close>

datatype response = Redirect string | Ok content | Status nat | NetError

datatype dl_error =
  HttpStatusError nat
  | RequestError
  | WriteError
  | StreamError
  | HashVerificationFailed

datatype dl_ok = Skipped | Downloaded | NoAttempt

type_synonym dl_state = "(path \<rightharpoonup> content) \<times> response list"

text \<open>The temporary sibling of the destination; the source appends the time and a random
  number as well.\<close>

definition temp_path :: "path \<Rightarrow> path" where
  "temp_path destination = destination @ ''.tmp''"

definition next_response :: "response list \<Rightarrow> response \<times> response list" where
  "next_response rs = (case rs of [] \<Rightarrow> (NetError, []) | r # rest \<Rightarrow> (r, rest))"

text \<open>
  The check after the promise of an attempt has resolved:
  \<^verbatim>\<open>if (expectedHash) { if (!await verifyHash(destination, expectedHash)) throw ... }\<close>.
  \<open>None\<close> is no error.
\<close>

definition verify_downloaded ::
  "io_env \<Rightarrow> (content \<Rightarrow> string) \<Rightarrow> path \<Rightarrow> string option \<Rightarrow> (path \<rightharpoonup> content)
     \<Rightarrow> dl_error option" where
  "verify_downloaded env sha1 destination expectedHash fs =
     (case expectedHash of
        None \<Rightarrow> None
      | Some h \<Rightarrow>
          (if h = [] then None
           else (case verifyHash env sha1 fs destination h of
                   None \<Rightarrow> Some StreamError
                 | Some True \<Rightarrow> None
                 | Some False \<Rightarrow> Some HashVerificationFailed)))"

text \<open>
  \<open>downloadFile url destination retries expectedHash\<close> and its retry loop
  \<open>download_attempts\<close>, which carries the loop counter \<open>attempt\<close>. One attempt
  creates the temporary file, issues the request, and
  \<^item> on a redirect removes the temporary file and calls \<open>downloadFile\<close> on the location
    with \<open>retries - 1\<close>, taking over its outcome;
  \<^item> on success renames the temporary file to the destination (a failing rename and copy
    is a \<open>WriteError\<close>);
  \<^item> otherwise removes the temporary file and rejects.
  A resolved attempt is followed by the hash check. An error is retried while
  \<open>attempt < retries - 1\<close> and thrown otherwise. With no attempt left at the start the
  loop falls through and the function returns \<open>undefined\<close>.
\<close>

function downloadFile ::
    "io_env \<Rightarrow> (content \<Rightarrow> string) \<Rightarrow> string \<Rightarrow> path \<Rightarrow> int \<Rightarrow> string option \<Rightarrow> dl_state
       \<Rightarrow> (dl_error + dl_ok) \<times> dl_state"
  and download_attempts ::
    "io_env \<Rightarrow> (content \<Rightarrow> string) \<Rightarrow> string \<Rightarrow> path \<Rightarrow> int \<Rightarrow> nat \<Rightarrow> string option \<Rightarrow> dl_state
       \<Rightarrow> (dl_error + dl_ok) \<times> dl_state"
where
  "downloadFile env sha1 url destination retries expectedHash st =
     (if truthy expectedHash \<and> fst st destination \<noteq> None
      then (case verifyHash env sha1 (fst st) destination
                   (case expectedHash of None \<Rightarrow> [] | Some h \<Rightarrow> h) of
              None \<Rightarrow> (Inl StreamError, st)
            | Some True \<Rightarrow> (Inr Skipped, st)
            | Some False \<Rightarrow> download_attempts env sha1 url destination retries 0 expectedHash st)
      else download_attempts env sha1 url destination retries 0 expectedHash st)"
| "download_attempts env sha1 url destination retries attempt expectedHash st =
     (if int attempt < retries
      then
        (case next_response (snd st) of
           (r, rs) \<Rightarrow>
             (case (case r of
                      Redirect location \<Rightarrow>
                        (case downloadFile env sha1 location destination (retries - 1) expectedHash
                                ((fst st)(temp_path destination := None), rs) of
                           (Inl e, st') \<Rightarrow> (Some e, st')
                         | (Inr v, st') \<Rightarrow> (None, st'))
                    | Ok body \<Rightarrow>
                        (if can_write env destination
                         then (None, ((fst st)(temp_path destination := None,
                                               destination \<mapsto> body), rs))
                         else (Some WriteError, ((fst st)(temp_path destination := None), rs)))
                    | Status n \<Rightarrow>
                        (Some (HttpStatusError n), ((fst st)(temp_path destination := None), rs))
                    | NetError \<Rightarrow>
                        (Some RequestError, ((fst st)(temp_path destination := None), rs))) of
                (rejected, st1) \<Rightarrow>
                  (case (case rejected of
                           Some e \<Rightarrow> Some e
                         | None \<Rightarrow> verify_downloaded env sha1 destination expectedHash (fst st1)) of
                     None \<Rightarrow> (Inr Downloaded, st1)
                   | Some e \<Rightarrow>
                       (if int attempt < retries - 1
                        then download_attempts env sha1 url destination retries (Suc attempt)
                               expectedHash st1
                        else (Inl e, st1)))))
      else (Inr NoAttempt, st))"
  by pat_completeness auto
termination
  by (relation "inv_image (less_than <*lex*> less_than)
        (\<lambda>x. case x of
                Inl (env, sha1, url, destination, retries, expectedHash, st) \<Rightarrow>
                  (nat retries, nat retries + 1)
              | Inr (env, sha1, url, destination, retries, attempt, expectedHash, st) \<Rightarrow>
                  (nat retries, nat retries - attempt))")
     auto

declare downloadFile.simps [simp del] download_attempts.simps [simp del]

text \<open>After a failed download a file is left at the destination whose digest does not
  match the expected hash.\<close>

definition left_behind ::
  "(content \<Rightarrow> string) \<Rightarrow> path \<Rightarrow> string option \<Rightarrow> dl_state \<Rightarrow> bool" where
  "left_behind sha1 destination expectedHash st \<longleftrightarrow>
     (\<exists>c h. expectedHash = Some h \<and> h \<noteq> [] \<and> fst st destination = Some c
        \<and> toLowerCase (sha1 c) \<noteq> toLowerCase h)"

text \<open>
  Nothing the state can put at the destination has the expected digest: not the file
  already there, if there is one, and none of the deliveries the network holds.
\<close>

definition no_match ::
  "(content \<Rightarrow> string) \<Rightarrow> path \<Rightarrow> string \<Rightarrow> dl_state \<Rightarrow> bool" where
  "no_match sha1 destination h st \<longleftrightarrow>
     (case fst st destination of
        None \<Rightarrow> True
      | Some c \<Rightarrow> toLowerCase (sha1 c) \<noteq> toLowerCase h)
     \<and> list_all (\<lambda>r. case r of
                         Ok body \<Rightarrow> toLowerCase (sha1 body) \<noteq> toLowerCase h
                       | _ \<Rightarrow> True) (snd st)"

text \<open>
  The responses of a download in which every attempt is redirected once and every
  attempt of the redirected download receives a delivery: one group, a location and the
  deliveries that follow, for each attempt.
\<close>

definition redirected_attempts :: "(string \<times> content list) list \<Rightarrow> response list" where
  "redirected_attempts groups =
     concat (map (\<lambda>(location, bodies). Redirect location # map Ok bodies) groups)"

subsection \<open>The launcher's own download\<close>

text \<open>
  \<open>downloadFile url destination expectedHash\<close> of the launcher class has no retry loop
  and follows a redirect by calling itself. Each request consumes a response, so the
  model recurses on the list of responses. The steps are those of one attempt above: an
  existing destination with a matching hash returns at once; a success renames the
  temporary file to the destination; the hash is verified after the promise has resolved.
  The progress counter it increments is left out.
\<close>

fun launcher_downloadFile ::
  "io_env \<Rightarrow> (content \<Rightarrow> string) \<Rightarrow> string \<Rightarrow> path \<Rightarrow> string option
     \<Rightarrow> (path \<rightharpoonup> content) \<Rightarrow> response list \<Rightarrow> (dl_error + dl_ok) \<times> dl_state" where
  "launcher_downloadFile env sha1 url destination expectedHash fs [] =
     (if fs destination \<noteq> None \<and> truthy expectedHash
      then (case verifyHash env sha1 fs destination
                   (case expectedHash of None \<Rightarrow> [] | Some h \<Rightarrow> h) of
              None \<Rightarrow> (Inl StreamError, (fs, []))
            | Some True \<Rightarrow> (Inr Skipped, (fs, []))
            | Some False \<Rightarrow> (Inl RequestError, (fs(temp_path destination := None), [])))
      else (Inl RequestError, (fs(temp_path destination := None), [])))"
| "launcher_downloadFile env sha1 url destination expectedHash fs (r # rs) =
     (case (if fs destination \<noteq> None \<and> truthy expectedHash
            then verifyHash env sha1 fs destination
                   (case expectedHash of None \<Rightarrow> [] | Some h \<Rightarrow> h)
            else Some False) of
        None \<Rightarrow> (Inl StreamError, (fs, r # rs))
      | Some True \<Rightarrow> (Inr Skipped, (fs, r # rs))
      | Some False \<Rightarrow>
          (case (case r of
                   Redirect location \<Rightarrow>
                     (case launcher_downloadFile env sha1 location destination expectedHash
                             (fs(temp_path destination := None)) rs of
                        (Inl e, st') \<Rightarrow> (Some e, st')
                      | (Inr v, st') \<Rightarrow> (None, st'))
                 | Ok body \<Rightarrow>
                     (if can_write env destination
                      then (None, (fs(temp_path destination := None, destination \<mapsto> body), rs))
                      else (Some WriteError, (fs(temp_path destination := None), rs)))
                 | Status n \<Rightarrow> (Some (HttpStatusError n), (fs(temp_path destination := None), rs))
                 | NetError \<Rightarrow> (Some RequestError, (fs(temp_path destination := None), rs))) of
             (Some e, st1) \<Rightarrow> (Inl e, st1)
           | (None, st1) \<Rightarrow>
               (case verify_downloaded env sha1 destination expectedHash (fst st1) of
                  None \<Rightarrow> (Inr Downloaded, st1)
                | Some e \<Rightarrow> (Inl e, st1))))"

section \<open>Properties of the rule evaluators\<close>

lemma lib_rule_matches_valid:
  "patterns_valid pf rs \<Longrightarrow> r \<in> set rs \<Longrightarrow> lib_rule_matches pf r \<noteq> None"
  by (auto simp: patterns_valid_def list_all_iff lib_rule_matches_def split: option.splits)

lemma arg_rule_applies_valid:
  "patterns_valid pf rs \<Longrightarrow> r \<in> set rs \<Longrightarrow> arg_rule_applies pf r \<noteq> None"
  by (auto simp: patterns_valid_def list_all_iff arg_rule_applies_def Let_def split: option.splits)

lemma lib_rules_loop_last:
  "patterns_valid pf rs \<Longrightarrow>
   lib_rules_loop pf allowed rs =
     Some (case last_matching pf rs of None \<Rightarrow> allowed | Some r \<Rightarrow> lib_action r)"
proof (induction rs arbitrary: allowed)
  case Nil
  then show ?case by (simp add: last_matching_def)
next
  case (Cons r rs)
  from Cons.prems have v: "patterns_valid pf rs" by (simp add: patterns_valid_def)
  from Cons.prems have "lib_rule_matches pf r \<noteq> None"
    by (intro lib_rule_matches_valid [of pf "r # rs"]) simp_all
  then obtain b where b: "lib_rule_matches pf r = Some b" by auto
  show ?case
    using Cons.IH [OF v] b
    by (cases b) (auto simp: last_matching_def split: list.splits option.splits)
qed

lemma arg_rules_loop_all:
  "patterns_valid pf rs \<Longrightarrow>
   arg_rules_loop pf rs = Some (list_all (\<lambda>r. arg_rule_applies pf r = Some True) rs)"
proof (induction rs)
  case Nil
  then show ?case by simp
next
  case (Cons r rs)
  from Cons.prems have v: "patterns_valid pf rs" by (simp add: patterns_valid_def)
  from Cons.prems have "arg_rule_applies pf r \<noteq> None"
    by (intro arg_rule_applies_valid [of pf "r # rs"]) simp_all
  then obtain b where b: "arg_rule_applies pf r = Some b" by auto
  show ?case
    using Cons.IH [OF v] b by (cases b) auto
qed

text \<open>
  Claim C4, as stated, fails for the library evaluator. With the rules
  \<open>disallow, allow\<close> (neither restricted to an OS) \<open>shouldUseLibrary\<close> answers
  \<open>true\<close>, the action of the last matching rule, although the first rule is a matching
  disallow; \<open>checkArgConditions\<close> answers \<open>false\<close> on the same rules. On an empty
  rule list the library evaluator answers \<open>false\<close> and the argument evaluator \<open>true\<close>.
\<close>

theorem library_rules_last_match_wins:
  "shouldUseLibrary linux (Some [disallow_rule, allow_rule]) = Some True
   \<and> checkArgConditions linux (Some [disallow_rule, allow_rule]) = Some False
   \<and> shouldUseLibrary linux (Some []) = Some False
   \<and> checkArgConditions linux (Some []) = Some True"
  by (simp add: shouldUseLibrary_def checkArgConditions_def lib_rule_matches_def lib_action_def
      arg_rule_applies_def allow_rule_def disallow_rule_def linux_def)

text \<open>
  Claim C4, amended. For a conditional argument carrying an ordered list of rules whose
  version patterns are regular expressions, the applicability result is the AND of the
  outcomes of all rules, evaluated in order: every rule must come out as applying. For a
  library carrying such a list, the result is determined by the last rule whose OS
  restriction matches alone (allowed unless that rule's action is \<open>disallow\<close>), and is
  \<open>false\<close> when no rule matches. The two evaluators follow different semantics.
\<close>

theorem rule_evaluators_semantics:
  assumes "patterns_valid pf rs"
  shows "checkArgConditions pf (Some rs) =
           Some (list_all (\<lambda>r. arg_rule_applies pf r = Some True) rs)
         \<and> shouldUseLibrary pf (Some rs) =
           Some (case last_matching pf rs of None \<Rightarrow> False | Some r \<Rightarrow> lib_action r)"
  using assms
  by (simp add: checkArgConditions_def shouldUseLibrary_def arg_rules_loop_all
      lib_rules_loop_last)

theorem rule_evaluators_semantics_witness:
  "patterns_valid linux [allow_rule, disallow_rule]
   \<and> checkArgConditions linux (Some [allow_rule, disallow_rule]) = Some False
   \<and> last_matching linux [allow_rule, disallow_rule] = Some disallow_rule
   \<and> shouldUseLibrary linux (Some [allow_rule, disallow_rule]) = Some False"
proof -
  have v: "patterns_valid linux [allow_rule, disallow_rule]"
    by (simp add: patterns_valid_def allow_rule_def disallow_rule_def)
  have a: "list_all (\<lambda>r. arg_rule_applies linux r = Some True) [allow_rule, disallow_rule]
      = False"
    by (simp add: arg_rule_applies_def allow_rule_def disallow_rule_def)
  have l: "last_matching linux [allow_rule, disallow_rule] = Some disallow_rule"
    by (simp add: last_matching_def lib_rule_matches_def allow_rule_def disallow_rule_def)
  have d: "lib_action disallow_rule = False"
    by (simp add: lib_action_def disallow_rule_def)
  from rule_evaluators_semantics [OF v] show ?thesis
    unfolding a l by (simp add: v d)
qed

section \<open>Properties of the conflict resolver\<close>

lemma build_lib_map_last:
  "build_lib_map m ls k = (case last_with k ls of Some b \<Rightarrow> Some b | None \<Rightarrow> m k)"
  by (induction ls arbitrary: m) (auto split: option.splits)

lemma last_with_key: "last_with k ls = Some b \<Longrightarrow> base_name_of b = Some k \<and> b \<in> set ls"
  by (induction ls) (auto split: option.splits if_splits)

lemma last_with_None: "last_with k ls = None \<longleftrightarrow> (\<forall>b\<in>set ls. base_name_of b \<noteq> Some k)"
  by (induction ls) (auto split: option.splits if_splits)

lemma last_with_filter:
  assumes "\<And>l. base_name_of l = Some k \<Longrightarrow> P l = pk"
  shows "last_with k (filter P ls) = (if pk then last_with k ls else None)"
  using assms by (induction ls) (auto split: option.splits)

lemma resolve_snd: "snd (resolveLibraryConflicts mc fab cs) = fab"
  by (induction cs arbitrary: mc) auto

lemma resolve_fst:
  "fst (resolveLibraryConflicts mc fab cs) =
     (if cs = [] then mc
      else mc\<lparr>libraries := Some (filter (\<lambda>l. \<forall>c\<in>set cs. keep_lib c l) (libs_or_empty mc))\<rparr>)"
proof (induction cs arbitrary: mc)
  case Nil
  then show ?case by simp
next
  case (Cons c cs)
  show ?case
    by (cases "cs = []") (auto simp: Cons.IH libs_or_empty_def intro!: filter_cong)
qed

lemma check_fabric_keys:
  "baseName ` set (check_fabric m fls) =
     {k. \<exists>f\<in>set fls. base_name_of f = Some k \<and> (\<exists>b. m k = Some b \<and> name b \<noteq> name f)}"
  by (induction fls) (auto split: option.splits if_splits simp: image_iff)

lemma check_fabric_minecraft:
  "c \<in> set (check_fabric m fls) \<Longrightarrow> \<exists>k b. m k = Some b \<and> minecraft c = name b"
proof (induction fls)
  case Nil
  then show ?case by simp
next
  case (Cons f fls)
  then show ?case
    by (fastforce split: option.splits if_splits)
qed

lemma check_fabric_empty:
  "check_fabric m fls = [] \<longleftrightarrow>
     (\<forall>f\<in>set fls. \<forall>k b. base_name_of f = Some k \<longrightarrow> m k = Some b \<longrightarrow> name b = name f)"
  by (induction fls) (auto split: option.splits if_splits)

lemma distinct_keys_Cons:
  "distinct_keys (b # bs) \<longleftrightarrow>
     distinct_keys bs \<and>
     (\<forall>k. base_name_of b = Some k \<longrightarrow> (\<forall>x\<in>set bs. base_name_of x \<noteq> Some k))"
  unfolding distinct_keys_def by (cases "base_name_of b") (auto simp: image_iff)

lemma filter_key_unique:
  "distinct_keys base \<Longrightarrow>
   filter (\<lambda>b. base_name_of b = Some k) base =
     (case last_with k base of None \<Rightarrow> [] | Some b \<Rightarrow> [b])"
proof (induction base)
  case Nil
  then show ?case by simp
next
  case (Cons b bs)
  from Cons.prems have d: "distinct_keys bs"
    and u: "\<And>k'. base_name_of b = Some k' \<Longrightarrow> \<forall>x\<in>set bs. base_name_of x \<noteq> Some k'"
    by (auto simp: distinct_keys_Cons)
  show ?case
  proof (cases "base_name_of b = Some k")
    case True
    with u have none: "\<forall>x\<in>set bs. base_name_of x \<noteq> Some k" by blast
    then have "last_with k bs = None" by (simp add: last_with_None)
    moreover from none have "filter (\<lambda>b. base_name_of b = Some k) bs = []"
      by (simp add: filter_empty_conv)
    ultimately show ?thesis using True by simp
  next
    case False
    then show ?thesis using Cons.IH [OF d] by (simp split: option.splits)
  qed
qed

lemma conflicting_filter:
  "filter (\<lambda>b. conflicting b f) base =
     (case base_name_of f of
        None \<Rightarrow> []
      | Some k \<Rightarrow> filter (\<lambda>b. name b \<noteq> name f) (filter (\<lambda>b. base_name_of b = Some k) base))"
  by (cases "base_name_of f") (auto simp: conflicting_def filter_empty_conv intro!: filter_cong)

lemma check_fabric_spec:
  assumes "distinct_keys base"
  shows "check_fabric (build_lib_map Map.empty base) ov = spec_conflicts base ov"
proof (induction ov)
  case Nil
  then show ?case by (simp add: spec_conflicts_def)
next
  case (Cons f fs)
  have tl: "spec_conflicts base (f # fs) =
      map (\<lambda>b. \<lparr>baseName = (case base_name_of f of Some k \<Rightarrow> k | None \<Rightarrow> []),
                 minecraft = name b, fabric = name f\<rparr>) (filter (\<lambda>b. conflicting b f) base)
      @ spec_conflicts base fs"
    by (simp add: spec_conflicts_def)
  show ?case
  proof (cases "base_name_of f")
    case None
    then show ?thesis using Cons.IH by (simp add: tl conflicting_filter)
  next
    case (Some k)
    show ?thesis
      using Some Cons.IH filter_key_unique [OF assms, of k]
      by (cases "last_with k base")
         (simp_all add: tl conflicting_filter build_lib_map_last)
  qed
qed

lemma keep_all_spec:
  assumes "distinct_keys base" "b \<in> set base"
  shows "(\<forall>c\<in>set (check_fabric (build_lib_map Map.empty base) ov). keep_lib c b)
         \<longleftrightarrow> \<not> list_ex (conflicting b) ov"
proof (cases "base_name_of b")
  case None
  then show ?thesis by (simp add: keep_lib_def conflicting_def list_ex_iff)
next
  case (Some k)
  have "b \<in> set (filter (\<lambda>x. base_name_of x = Some k) base)"
    using assms(2) Some by simp
  then have lw: "last_with k base = Some b"
    using filter_key_unique [OF assms(1), of k] by (simp split: option.splits)
  have "(\<forall>c\<in>set (check_fabric (build_lib_map Map.empty base) ov). keep_lib c b)
        \<longleftrightarrow> k \<notin> baseName ` set (check_fabric (build_lib_map Map.empty base) ov)"
    using Some by (auto simp: keep_lib_def)
  also have "\<dots> \<longleftrightarrow> \<not> (\<exists>f\<in>set ov. base_name_of f = Some k \<and> name b \<noteq> name f)"
    by (simp add: check_fabric_keys build_lib_map_last lw)
  also have "\<dots> \<longleftrightarrow> \<not> list_ex (conflicting b) ov"
    using Some by (auto simp: list_ex_iff conflicting_def)
  finally show ?thesis .
qed

lemma resolve_pass_fst:
  "libs_or_empty (fst (resolve_pass mc fab)) =
     filter (\<lambda>l. \<forall>c\<in>set (identifyLibraryConflicts mc fab). keep_lib c l) (libs_or_empty mc)"
  by (simp add: resolve_pass_def Let_def resolve_fst libs_or_empty_def)

lemma resolve_pass_snd: "snd (resolve_pass mc fab) = fab"
  by (simp add: resolve_pass_def Let_def resolve_snd)

lemma resolve_pass_spec:
  assumes "distinct_keys (libs_or_empty mc)"
  shows "libs_or_empty (fst (resolve_pass mc fab)) =
           spec_resolved (libs_or_empty mc) (libs_or_empty fab)"
  unfolding resolve_pass_fst spec_resolved_def identifyLibraryConflicts_def
  using keep_all_spec [OF assms] by (auto intro!: filter_cong)

lemma identify_after_resolve:
  "identifyLibraryConflicts (fst (resolve_pass mc fab)) fab = []"
proof -
  let ?base = "libs_or_empty mc"
  let ?cs = "identifyLibraryConflicts mc fab"
  let ?P = "\<lambda>l. \<forall>c\<in>set ?cs. keep_lib c l"
  have keys: "baseName ` set ?cs =
      {k. \<exists>f\<in>set (libs_or_empty fab). base_name_of f = Some k \<and>
           (\<exists>b. last_with k ?base = Some b \<and> name b \<noteq> name f)}"
    unfolding identifyLibraryConflicts_def
    by (auto simp: check_fabric_keys build_lib_map_last split: option.splits)
  have lw: "last_with k (filter ?P ?base) =
      (if k \<notin> baseName ` set ?cs then last_with k ?base else None)" for k
    by (rule last_with_filter) (auto simp: keep_lib_def)
  have "check_fabric (build_lib_map Map.empty (filter ?P ?base)) (libs_or_empty fab) = []"
    unfolding check_fabric_empty
  proof (intro ballI allI impI)
    fix f k b
    assume f: "f \<in> set (libs_or_empty fab)" and k: "base_name_of f = Some k"
      and m: "build_lib_map Map.empty (filter ?P ?base) k = Some b"
    from m have 1: "last_with k (filter ?P ?base) = Some b"
      by (simp add: build_lib_map_last split: option.splits)
    then have nk: "k \<notin> baseName ` set ?cs" and 2: "last_with k ?base = Some b"
      unfolding lw by (auto split: if_splits)
    from nk f k 2 show "name b = name f" unfolding keys by blast
  qed
  then show ?thesis
    unfolding identifyLibraryConflicts_def resolve_pass_fst .
qed

lemma resolve_pass_idem:
  "resolve_pass (fst (resolve_pass mc fab)) (snd (resolve_pass mc fab)) = resolve_pass mc fab"
proof -
  have "resolve_pass (fst (resolve_pass mc fab)) fab = (fst (resolve_pass mc fab), fab)"
    using identify_after_resolve [of mc fab]
    by (simp add: resolve_pass_def [of "fst (resolve_pass mc fab)"])
  also have "\<dots> = resolve_pass mc fab"
    using resolve_pass_snd [of mc fab] by (metis prod.collapse)
  finally show ?thesis by (simp add: resolve_pass_snd)
qed

text \<open>
  Claim C1, as stated, fails when the base lists two libraries under one key: the lookup
  table keeps only the last of them, so the pair formed by the first one and a differing
  overlay library is never reported. Base \<open>a:b:1, a:b:2\<close> against overlay \<open>a:b:2\<close>:
  detection reports nothing, although \<open>a:b:1\<close> and \<open>a:b:2\<close> share the key \<open>a:b\<close> and
  differ in the full coordinate.
\<close>

theorem identify_misses_shadowed_pair:
  "identifyLibraryConflicts (desc [lib ''a:b:1'', lib ''a:b:2'']) (desc [lib ''a:b:2'']) = []
   \<and> conflicting (lib ''a:b:1'') (lib ''a:b:2'')
   \<and> spec_conflicts [lib ''a:b:1'', lib ''a:b:2''] [lib ''a:b:2''] =
       [\<lparr>baseName = ''a:b'', minecraft = Some ''a:b:1'', fabric = Some ''a:b:2''\<rparr>]"
  by (simp add: identifyLibraryConflicts_def libs_or_empty_def desc_def lib_def
      base_name_of_def conflicting_def spec_conflicts_def)

text \<open>
  Claim C1, amended. When no two keyed libraries of the base descriptor share a
  (group, artifact) key, conflict detection reports exactly the pairs of a base and an
  overlay library with the same key and different full coordinates, and the resolution
  pass removes precisely the conflicting entries from the base library list. For every
  base and overlay descriptor the overlay is returned unchanged, detection on the
  resolved output reports no conflict, and a second resolution pass changes nothing.
\<close>

theorem resolve_pass_exact_and_idempotent:
  "(distinct_keys (libs_or_empty mc) \<longrightarrow>
      identifyLibraryConflicts mc fab = spec_conflicts (libs_or_empty mc) (libs_or_empty fab)
      \<and> libs_or_empty (fst (resolve_pass mc fab)) =
          spec_resolved (libs_or_empty mc) (libs_or_empty fab))
   \<and> snd (resolve_pass mc fab) = fab
   \<and> identifyLibraryConflicts (fst (resolve_pass mc fab)) (snd (resolve_pass mc fab)) = []
   \<and> resolve_pass (fst (resolve_pass mc fab)) (snd (resolve_pass mc fab)) = resolve_pass mc fab"
proof (intro conjI impI)
  assume d: "distinct_keys (libs_or_empty mc)"
  show "identifyLibraryConflicts mc fab = spec_conflicts (libs_or_empty mc) (libs_or_empty fab)"
    unfolding identifyLibraryConflicts_def by (rule check_fabric_spec [OF d])
  show "libs_or_empty (fst (resolve_pass mc fab)) =
          spec_resolved (libs_or_empty mc) (libs_or_empty fab)"
    by (rule resolve_pass_spec [OF d])
next
  show "snd (resolve_pass mc fab) = fab" by (rule resolve_pass_snd)
next
  show "identifyLibraryConflicts (fst (resolve_pass mc fab)) (snd (resolve_pass mc fab)) = []"
    by (simp add: resolve_pass_snd identify_after_resolve)
next
  show "resolve_pass (fst (resolve_pass mc fab)) (snd (resolve_pass mc fab)) = resolve_pass mc fab"
    by (rule resolve_pass_idem)
qed

theorem resolve_pass_exact_and_idempotent_witness:
  "distinct_keys [lib ''com.example:foo:1.0'', lib ''org.x:bar:3'']
   \<and> identifyLibraryConflicts (desc [lib ''com.example:foo:1.0'', lib ''org.x:bar:3''])
        (desc [lib ''com.example:foo:2.0'']) =
       [\<lparr>baseName = ''com.example:foo'', minecraft = Some ''com.example:foo:1.0'',
         fabric = Some ''com.example:foo:2.0''\<rparr>]
   \<and> spec_resolved [lib ''com.example:foo:1.0'', lib ''org.x:bar:3'']
        [lib ''com.example:foo:2.0''] = [lib ''org.x:bar:3'']
   \<and> libs_or_empty (fst (resolve_pass (desc [lib ''com.example:foo:1.0'', lib ''org.x:bar:3''])
        (desc [lib ''com.example:foo:2.0'']))) = [lib ''org.x:bar:3'']
   \<and> snd (resolve_pass (desc [lib ''com.example:foo:1.0'', lib ''org.x:bar:3''])
        (desc [lib ''com.example:foo:2.0''])) = desc [lib ''com.example:foo:2.0'']"
proof -
  have d: "distinct_keys [lib ''com.example:foo:1.0'', lib ''org.x:bar:3'']"
    by (simp add: distinct_keys_def lib_def base_name_of_def)
  have s: "spec_conflicts [lib ''com.example:foo:1.0'', lib ''org.x:bar:3'']
        [lib ''com.example:foo:2.0''] =
       [\<lparr>baseName = ''com.example:foo'', minecraft = Some ''com.example:foo:1.0'',
         fabric = Some ''com.example:foo:2.0''\<rparr>]"
    by (simp add: spec_conflicts_def conflicting_def lib_def base_name_of_def)
  have r: "spec_resolved [lib ''com.example:foo:1.0'', lib ''org.x:bar:3'']
        [lib ''com.example:foo:2.0''] = [lib ''org.x:bar:3'']"
    by (simp add: spec_resolved_def conflicting_def lib_def base_name_of_def)
  have l: "libs_or_empty (desc ls) = ls" for ls
    by (simp add: libs_or_empty_def desc_def)
  show ?thesis
    using resolve_pass_exact_and_idempotent
      [of "desc [lib ''com.example:foo:1.0'', lib ''org.x:bar:3'']"
          "desc [lib ''com.example:foo:2.0'']"]
    by (simp only: l d s r simp_thms)
qed

text \<open>
  Claim C5, as stated, fails for a coordinate of exactly two segments: the resolver asks
  for at least two parts, not three. Base \<open>bad:coord\<close> against overlay \<open>bad:coord:1.0\<close>
  is reported as a conflict under the key \<open>bad:coord\<close> and removed from the base.
\<close>

theorem two_segment_coordinate_is_candidate:
  "length (split_on CHR '':'' ''bad:coord'') = 2
   \<and> identifyLibraryConflicts (desc [lib ''bad:coord'']) (desc [lib ''bad:coord:1.0'']) =
       [\<lparr>baseName = ''bad:coord'', minecraft = Some ''bad:coord'',
         fabric = Some ''bad:coord:1.0''\<rparr>]
   \<and> libs_or_empty (fst (resolve_pass (desc [lib ''bad:coord''])
        (desc [lib ''bad:coord:1.0'']))) = []"
  by (simp add: identifyLibraryConflicts_def resolve_pass_def libs_or_empty_def desc_def
      lib_def base_name_of_def keep_lib_def)

text \<open>
  Claim C5, amended. A base library whose coordinate string has fewer than two
  colon-separated segments (no colon at all) is never reported as the base side of a
  conflict, and conflict resolution, whatever conflicts it is given, keeps every
  occurrence of it in the base descriptor's library list.
\<close>

theorem one_segment_coordinate_preserved:
  assumes "l \<in> set (libs_or_empty mc)"
    and "name l = Some n"
    and "length (split_on CHR '':'' n) < 2"
  shows "(\<forall>c\<in>set (identifyLibraryConflicts mc fab). minecraft c \<noteq> Some n)
         \<and> l \<in> set (libs_or_empty (fst (resolveLibraryConflicts mc fab cs)))
         \<and> filter (\<lambda>x. x = l) (libs_or_empty (fst (resolveLibraryConflicts mc fab cs))) =
             filter (\<lambda>x. x = l) (libs_or_empty mc)"
proof -
  from assms(2,3) have key: "base_name_of l = None"
    by (auto simp: base_name_of_def split: list.splits)
  have nokey: "base_name_of x = None" if "name x = Some n" for x
    using that key assms(2) by (simp add: base_name_of_def)
  have 1: "\<forall>c\<in>set (identifyLibraryConflicts mc fab). minecraft c \<noteq> Some n"
  proof
    fix c assume c: "c \<in> set (identifyLibraryConflicts mc fab)"
    from c obtain k b where "build_lib_map Map.empty (libs_or_empty mc) k = Some b"
      and mc: "minecraft c = name b"
      unfolding identifyLibraryConflicts_def by (blast dest: check_fabric_minecraft)
    then have "base_name_of b \<noteq> None"
      by (auto simp: build_lib_map_last dest: last_with_key split: option.splits)
    with mc obtain b where "base_name_of b \<noteq> None" "minecraft c = name b" by blast
    then show "minecraft c \<noteq> Some n" using nokey [of b] by auto
  qed
  have keep: "keep_lib c l" for c
    by (simp add: keep_lib_def key)
  have 2: "filter (\<lambda>x. x = l) (libs_or_empty (fst (resolveLibraryConflicts mc fab cs))) =
             filter (\<lambda>x. x = l) (libs_or_empty mc)"
    by (auto simp: resolve_fst libs_or_empty_def keep intro!: filter_cong)
  from assms(1) have "l \<in> set (filter (\<lambda>x. x = l) (libs_or_empty mc))" by simp
  then have 3: "l \<in> set (libs_or_empty (fst (resolveLibraryConflicts mc fab cs)))"
    unfolding 2 [symmetric] by simp
  from 1 2 3 show ?thesis by blast
qed

theorem one_segment_coordinate_preserved_witness:
  "lib ''badcoord'' \<in> set (libs_or_empty (desc [lib ''badcoord'', lib ''a:b:1'']))
   \<and> length (split_on CHR '':'' ''badcoord'') < 2
   \<and> identifyLibraryConflicts (desc [lib ''badcoord'', lib ''a:b:1''])
        (desc [lib ''badcoord:x'', lib ''a:b:2'']) =
       [\<lparr>baseName = ''a:b'', minecraft = Some ''a:b:1'', fabric = Some ''a:b:2''\<rparr>]
   \<and> lib ''badcoord'' \<in> set (libs_or_empty (fst (resolveLibraryConflicts
        (desc [lib ''badcoord'', lib ''a:b:1'']) (desc [lib ''badcoord:x'', lib ''a:b:2''])
        [\<lparr>baseName = ''a:b'', minecraft = Some ''a:b:1'', fabric = Some ''a:b:2''\<rparr>])))"
proof -
  have a: "lib ''badcoord'' \<in> set (libs_or_empty (desc [lib ''badcoord'', lib ''a:b:1'']))"
    by (simp add: libs_or_empty_def desc_def)
  have b: "name (lib ''badcoord'') = Some ''badcoord''"
    by (simp add: lib_def)
  have c: "length (split_on CHR '':'' ''badcoord'') < 2"
    by simp
  have i: "identifyLibraryConflicts (desc [lib ''badcoord'', lib ''a:b:1''])
        (desc [lib ''badcoord:x'', lib ''a:b:2'']) =
       [\<lparr>baseName = ''a:b'', minecraft = Some ''a:b:1'', fabric = Some ''a:b:2''\<rparr>]"
    by (simp add: identifyLibraryConflicts_def libs_or_empty_def desc_def lib_def
        base_name_of_def)
  from one_segment_coordinate_preserved [OF a b c] a c i show ?thesis
    by blast
qed

section \<open>Properties of descriptor backup and restore\<close>

lemma map_set_lookup: "map_of (map_set k v es) = (map_of es)(k \<mapsto> v)"
  by (induction es) auto

lemma map_set_mem: "(k, v) \<in> set (map_set k v es)"
  by (induction es) auto

lemma map_set_fst:
  "map fst (map_set k v es) = (if k \<in> set (map fst es) then map fst es else map fst es @ [k])"
  by (induction es) (auto simp: rev_image_eqI)

lemma map_set_keys: "distinct (map fst es) \<Longrightarrow> distinct (map fst (map_set k v es))"
  by (simp add: map_set_fst)

lemma restore_loop_files:
  "distinct (map fst es) \<Longrightarrow>
   fst (restore_loop env es fs acc) p =
     (case map_of es p of
        Some c \<Rightarrow> (if can_write env p then Some c else fs p)
      | None \<Rightarrow> fs p)"
proof (induction es arbitrary: fs acc)
  case Nil
  then show ?case by simp
next
  case (Cons e es)
  obtain q c where e: "e = (q, c)" by (cases e)
  from Cons.prems e have d: "distinct (map fst es)" and nq: "q \<notin> fst ` set es" by auto
  from nq have mq: "map_of es q = None" by (simp add: map_of_eq_None_iff)
  show ?case
    using Cons.IH [OF d] mq by (auto simp: e split: option.splits)
qed

lemma restore_loop_restored:
  "snd (restore_loop env es fs acc) = acc @ filter (can_write env) (map fst es)"
  by (induction es arbitrary: fs acc) auto

lemma restore_clears: "modifiedJsonFiles (fst (restoreJsonFiles env st)) = []"
  by (simp add: restoreJsonFiles_def split: prod.splits)

lemma restore_empty:
  "modifiedJsonFiles st = [] \<Longrightarrow>
   restoreJsonFiles env st = (st, \<lparr>success = True, restored = []\<rparr>)"
  by (simp add: restoreJsonFiles_def)

lemma restore_loop_unwritable:
  "\<not> can_write env p \<Longrightarrow> fst (restore_loop env es fs acc) p = fs p"
  by (induction es arbitrary: fs acc) auto

lemma restore_disk:
  "disk (fst (restoreJsonFiles env st)) = fst (restore_loop env (modifiedJsonFiles st) (disk st) [])"
  by (simp add: restoreJsonFiles_def split: prod.splits)

lemma restore_restored:
  "restored (snd (restoreJsonFiles env st)) = filter (can_write env) (map fst (modifiedJsonFiles st))"
  using restore_loop_restored [of env "modifiedJsonFiles st" "disk st" "[]"]
  by (auto simp: restoreJsonFiles_def split: prod.splits)

lemma restore_twice:
  "restoreJsonFiles env' (fst (restoreJsonFiles env st)) =
     (fst (restoreJsonFiles env st), \<lparr>success = True, restored = []\<rparr>)"
  by (rule restore_empty) (rule restore_clears)

lemma restore_writes_backup:
  assumes "distinct (map fst (modifiedJsonFiles st))"
    and "map_of (modifiedJsonFiles st) p = Some c"
    and "can_write env p"
  shows "disk (fst (restoreJsonFiles env st)) p = Some c"
  using assms by (simp add: restore_disk restore_loop_files)

lemma backup_disk: "disk (backupJsonFile env p st) = disk st"
  by (simp add: backupJsonFile_def split: option.splits)

lemma backup_map:
  "disk st p = Some c \<Longrightarrow> can_read env p \<Longrightarrow>
   modifiedJsonFiles (backupJsonFile env p st) = map_set p c (modifiedJsonFiles st)"
  by (simp add: backupJsonFile_def)

lemma write_back_map:
  "modifiedJsonFiles (fst (write_back env mp mt fp ft n st)) = modifiedJsonFiles st"
  by (simp add: write_back_def)

lemma process_loaded_map:
  "modifiedJsonFiles (fst (process_loaded env stringify mp fp mj fj st)) = modifiedJsonFiles st"
  by (simp add: process_loaded_def Let_def write_back_map split: prod.splits)

lemma process_backups:
  assumes "disk st mp = Some cm" "disk st fp = Some cf"
    and "can_read env mp" "can_read env fp"
  shows "modifiedJsonFiles (fst (processVersionFiles env parse stringify mp fp st)) =
           map_set fp cf (map_set mp cm (modifiedJsonFiles st))"
proof -
  let ?st1 = "backupJsonFile env mp st"
  let ?st2 = "backupJsonFile env fp ?st1"
  have 1: "modifiedJsonFiles ?st1 = map_set mp cm (modifiedJsonFiles st)"
    using assms by (simp add: backup_map)
  have 2: "modifiedJsonFiles ?st2 = map_set fp cf (map_set mp cm (modifiedJsonFiles st))"
    using assms 1 by (simp add: backup_map backup_disk)
  show ?thesis
    using assms(1,2) 2
    by (simp add: processVersionFiles_def Let_def process_loaded_map split: option.splits)
qed

lemma backups_lookup:
  "map_of (map_set fp cf (map_set mp cm es)) mp = Some (if fp = mp then cf else cm)"
  "map_of (map_set fp cf (map_set mp cm es)) fp = Some cf"
  by (simp_all add: map_set_lookup)

lemma download_final_disk:
  "\<exists>fs. disk (fst (downloadGameFiles env env_restore parse stringify mp fp acquire late st)) =
        disk (fst (restoreJsonFiles env_restore
          \<lparr>disk = fs,
            modifiedJsonFiles =
              modifiedJsonFiles (fst (processVersionFiles env parse stringify mp fp st))\<rparr>))"
proof -
  obtain st1 r where p: "processVersionFiles env parse stringify mp fp st = (st1, r)"
    by (cases "processVersionFiles env parse stringify mp fp st")
  obtain fs2 threw where a: "acquire (disk st1) = (fs2, threw)"
    by (cases "acquire (disk st1)")
  have eq: "st1\<lparr>disk := fs2\<rparr> = \<lparr>disk = fs2, modifiedJsonFiles = modifiedJsonFiles st1\<rparr>"
    by simp
  have "disk (fst (downloadGameFiles env env_restore parse stringify mp fp acquire late st)) =
        disk (fst (restoreJsonFiles env_restore (st1\<lparr>disk := fs2\<rparr>)))"
    by (simp add: downloadGameFiles_def p a Let_def restore_twice split: prod.splits)
       (metis fst_conv restore_twice)
  then show ?thesis using p eq by (metis fst_conv)
qed

text \<open>
  Claim C2, as stated, fails on the exit path where a write-back of the restore throws:
  the error is caught per file, the backup map is cleared all the same, and the resolved
  text stays on disk while the run still reports success. Here the base document
  \<open>m.json\<close> holds \<open>M\<close>, resolution rewrites it, and the restore cannot write it.
\<close>

theorem restore_write_failure_keeps_resolved:
  "disk (fst (downloadGameFiles io_ok
        \<lparr>can_read = (\<lambda>p. True), can_write = (\<lambda>p. p \<noteq> ''m.json'')\<rparr>
        toy_parse toy_stringify ''m.json'' ''f.json'' (\<lambda>fs. (fs, False)) False
        \<lparr>disk = [''m.json'' \<mapsto> ''M'', ''f.json'' \<mapsto> ''F''], modifiedJsonFiles = []\<rparr>))
     ''m.json'' = Some ''ResolvedM''
   \<and> snd (downloadGameFiles io_ok
        \<lparr>can_read = (\<lambda>p. True), can_write = (\<lambda>p. p \<noteq> ''m.json'')\<rparr>
        toy_parse toy_stringify ''m.json'' ''f.json'' (\<lambda>fs. (fs, False)) False
        \<lparr>disk = [''m.json'' \<mapsto> ''M'', ''f.json'' \<mapsto> ''F''], modifiedJsonFiles = []\<rparr>)
     = True"
  by (simp add: downloadGameFiles_def processVersionFiles_def process_loaded_def
      write_back_def backupJsonFile_def read_json_def restoreJsonFiles_def fix_asset_index_def
      identifyLibraryConflicts_def libs_or_empty_def keep_lib_def base_name_of_def
      toy_parse_def toy_stringify_def io_ok_def desc_def lib_def Let_def)

text \<open>
  Claim C2, amended. For every descriptor document that exists and is readable when it is
  backed up, backing it up before conflict resolution and restoring after acquisition
  leaves its exact original content on disk on every exit path of the run (acquisition
  returning or throwing, a later step throwing or not), provided the restore's write-back
  of that document succeeds. The first hypothesis says that the backup map is a map: it
  holds at most one entry per path.
\<close>

theorem restore_round_trip:
  assumes "distinct (map fst (modifiedJsonFiles st))"
    and "disk st minecraftJsonPath = Some cm"
    and "disk st fabricJsonPath = Some cf"
    and "can_read env minecraftJsonPath"
    and "can_read env fabricJsonPath"
    and "can_write env_restore minecraftJsonPath"
    and "can_write env_restore fabricJsonPath"
  shows "disk (fst (downloadGameFiles env env_restore parse stringify
                 minecraftJsonPath fabricJsonPath acquire late_throw st)) minecraftJsonPath
           = Some cm
         \<and> disk (fst (downloadGameFiles env env_restore parse stringify
                 minecraftJsonPath fabricJsonPath acquire late_throw st)) fabricJsonPath
           = Some cf"
proof -
  let ?m = "map_set fabricJsonPath cf (map_set minecraftJsonPath cm (modifiedJsonFiles st))"
  have m: "modifiedJsonFiles
      (fst (processVersionFiles env parse stringify minecraftJsonPath fabricJsonPath st)) = ?m"
    using assms(2-5) by (rule process_backups)
  have d: "distinct (map fst ?m)"
    using assms(1) by (intro map_set_keys)
  have same: "cf = cm" if "fabricJsonPath = minecraftJsonPath"
    using that assms(2,3) by simp
  obtain fs where fin: "disk (fst (downloadGameFiles env env_restore parse stringify
        minecraftJsonPath fabricJsonPath acquire late_throw st)) =
      disk (fst (restoreJsonFiles env_restore \<lparr>disk = fs, modifiedJsonFiles = ?m\<rparr>))"
    using download_final_disk [of env env_restore parse stringify
        minecraftJsonPath fabricJsonPath acquire late_throw st]
    unfolding m by blast
  have "disk (fst (restoreJsonFiles env_restore \<lparr>disk = fs, modifiedJsonFiles = ?m\<rparr>))
          minecraftJsonPath = Some cm"
    using d assms(6) same
    by (intro restore_writes_backup) (auto simp: backups_lookup)
  moreover
  have "disk (fst (restoreJsonFiles env_restore \<lparr>disk = fs, modifiedJsonFiles = ?m\<rparr>))
          fabricJsonPath = Some cf"
    using d assms(7)
    by (intro restore_writes_backup) (auto simp: backups_lookup)
  ultimately show ?thesis unfolding fin by simp
qed

theorem restore_round_trip_witness:
  "disk (fst (downloadGameFiles io_ok io_ok toy_parse toy_stringify ''m.json'' ''f.json''
        (\<lambda>fs. (fs(''m.json'' \<mapsto> ''junk''), True)) False
        \<lparr>disk = [''m.json'' \<mapsto> ''M'', ''f.json'' \<mapsto> ''F''], modifiedJsonFiles = []\<rparr>))
     ''m.json'' = Some ''M''
   \<and> disk (fst (downloadGameFiles io_ok io_ok toy_parse toy_stringify ''m.json'' ''f.json''
        (\<lambda>fs. (fs(''m.json'' \<mapsto> ''junk''), True)) False
        \<lparr>disk = [''m.json'' \<mapsto> ''M'', ''f.json'' \<mapsto> ''F''], modifiedJsonFiles = []\<rparr>))
     ''f.json'' = Some ''F''"
  by (rule restore_round_trip) (simp_all add: io_ok_def)

text \<open>
  Claim C9. \<open>restoreJsonFiles\<close> leaves the backup map empty after one pass, whether or
  not the write-backs succeeded. A second call then writes nothing and returns an empty
  \<open>restored\<close> list. An entry whose write-back failed is not in \<open>restored\<close>, its file
  is left as it was, and a second restore, in whatever environment, does not bring the
  backup back: the file still holds what it held before the first restore.
\<close>

theorem restore_clears_backups_unconditionally:
  "modifiedJsonFiles (fst (restoreJsonFiles env st)) = []
   \<and> restoreJsonFiles env' (fst (restoreJsonFiles env st)) =
       (fst (restoreJsonFiles env st), \<lparr>success = True, restored = []\<rparr>)
   \<and> ((p, c) \<in> set (modifiedJsonFiles st) \<and> \<not> can_write env p \<longrightarrow>
        p \<notin> set (restored (snd (restoreJsonFiles env st)))
        \<and> disk (fst (restoreJsonFiles env st)) p = disk st p
        \<and> disk (fst (restoreJsonFiles env' (fst (restoreJsonFiles env st)))) p = disk st p)"
proof (intro conjI impI)
  show "modifiedJsonFiles (fst (restoreJsonFiles env st)) = []"
    by (rule restore_clears)
  show "restoreJsonFiles env' (fst (restoreJsonFiles env st)) =
       (fst (restoreJsonFiles env st), \<lparr>success = True, restored = []\<rparr>)"
    by (rule restore_twice)
next
  assume a: "(p, c) \<in> set (modifiedJsonFiles st) \<and> \<not> can_write env p"
  then show "p \<notin> set (restored (snd (restoreJsonFiles env st)))"
    by (simp add: restore_restored)
  from a show "disk (fst (restoreJsonFiles env st)) p = disk st p"
    by (simp add: restore_disk restore_loop_unwritable)
  then show "disk (fst (restoreJsonFiles env' (fst (restoreJsonFiles env st)))) p = disk st p"
    by (simp add: restore_twice)
qed

theorem restore_clears_backups_unconditionally_witness:
  "(''m.json'', ''M'') \<in> set [(''m.json'', ''M''), (''f.json'', ''F'')]
   \<and> \<not> can_write \<lparr>can_read = (\<lambda>p. True), can_write = (\<lambda>p. p \<noteq> ''m.json'')\<rparr> ''m.json''
   \<and> restoreJsonFiles \<lparr>can_read = (\<lambda>p. True), can_write = (\<lambda>p. p \<noteq> ''m.json'')\<rparr>
        \<lparr>disk = [''m.json'' \<mapsto> ''ResolvedM'', ''f.json'' \<mapsto> ''ResolvedF''],
         modifiedJsonFiles = [(''m.json'', ''M''), (''f.json'', ''F'')]\<rparr>
       = (\<lparr>disk = [''m.json'' \<mapsto> ''ResolvedM'', ''f.json'' \<mapsto> ''F''], modifiedJsonFiles = []\<rparr>,
          \<lparr>success = True, restored = [''f.json'']\<rparr>)
   \<and> disk (fst (restoreJsonFiles io_ok
        (fst (restoreJsonFiles \<lparr>can_read = (\<lambda>p. True), can_write = (\<lambda>p. p \<noteq> ''m.json'')\<rparr>
          \<lparr>disk = [''m.json'' \<mapsto> ''ResolvedM'', ''f.json'' \<mapsto> ''ResolvedF''],
           modifiedJsonFiles = [(''m.json'', ''M''), (''f.json'', ''F'')]\<rparr>)))) ''m.json''
       = Some ''ResolvedM''"
proof -
  let ?env = "\<lparr>can_read = (\<lambda>p. True), can_write = (\<lambda>p::path. p \<noteq> ''m.json'')\<rparr>"
  let ?st = "\<lparr>disk = [''m.json'' \<mapsto> ''ResolvedM'', ''f.json'' \<mapsto> ''ResolvedF''],
         modifiedJsonFiles = [(''m.json'', ''M''), (''f.json'', ''F'')]\<rparr>"
  have a: "(''m.json'', ''M'') \<in> set (modifiedJsonFiles ?st) \<and> \<not> can_write ?env ''m.json''"
    by simp
  have r: "restoreJsonFiles ?env ?st =
      (\<lparr>disk = [''m.json'' \<mapsto> ''ResolvedM'', ''f.json'' \<mapsto> ''F''], modifiedJsonFiles = []\<rparr>,
       \<lparr>success = True, restored = [''f.json'']\<rparr>)"
    by (simp add: restoreJsonFiles_def)
  from restore_clears_backups_unconditionally [of ?env ?st io_ok "''m.json''" "''M''"] a
  have "disk (fst (restoreJsonFiles io_ok (fst (restoreJsonFiles ?env ?st)))) ''m.json''
      = disk ?st ''m.json''"
    by blast
  then show ?thesis using r by simp
qed

section \<open>Properties of double-precision rounding\<close>

text \<open>
  Rounding to a double moves a non-negative rational by at most half a unit in the last
  place, that is by at most the \<open>2^53\<close>-th part of its value.
\<close>

lemma pow2_powi: "pow2 e = 2 powi e"
  by (simp add: pow2_def power_int_def inverse_eq_divide power_one_over)

lemma pow2_pos: "0 < pow2 e"
  by (simp add: pow2_powi)

lemma bit_length_bounds:
  "0 < n \<Longrightarrow> 1 \<le> bit_length n \<and> (2::int) ^ nat (bit_length n - 1) \<le> n \<and> n < 2 ^ nat (bit_length n)"
proof (induction n rule: bit_length.induct)
  case (1 n)
  show ?case
  proof (cases "n = 1")
    case True
    then show ?thesis by (simp add: bit_length.simps [of 1] bit_length.simps [of 0])
  next
    case False
    with "1.prems" have h: "0 < n div 2" by simp
    with "1.prems" have ih: "1 \<le> bit_length (n div 2)"
      "(2::int) ^ nat (bit_length (n div 2) - 1) \<le> n div 2"
      "n div 2 < 2 ^ nat (bit_length (n div 2))"
      using "1.IH" by simp_all
    have bl: "bit_length n = 1 + bit_length (n div 2)"
      using "1.prems" by (subst bit_length.simps) simp
    have e1: "nat (bit_length n - 1) = Suc (nat (bit_length (n div 2) - 1))"
      using ih(1) bl by simp
    have e2: "nat (bit_length n) = Suc (nat (bit_length (n div 2)))"
      using ih(1) bl by simp
    from ih(2) have "2 * 2 ^ nat (bit_length (n div 2) - 1) \<le> n" by linarith
    moreover from ih(3) have "n < 2 * 2 ^ nat (bit_length (n div 2))" by linarith
    ultimately show ?thesis using bl ih(1) unfolding e1 e2 by simp
  qed
qed

lemma binade_le:
  assumes "0 < x"
  shows "pow2 (binade x) \<le> x"
proof -
  obtain n d where q: "quotient_of x = (n, d)" by (cases "quotient_of x")
  then have d: "0 < d" and x: "x = of_int n / of_int d"
    using quotient_of_denom_pos quotient_of_div by blast+
  with assms have n: "0 < n" by (simp add: zero_less_divide_iff)
  let ?k = "bit_length n - bit_length d"
  show ?thesis
  proof (cases "pow2 ?k \<le> x")
    case True
    then show ?thesis by (simp add: binade_def q)
  next
    case False
    from bit_length_bounds [OF n] have ln: "(2::int) ^ nat (bit_length n - 1) \<le> n"
      and n1: "1 \<le> bit_length n" by simp_all
    from bit_length_bounds [OF d] have ud: "d < 2 ^ nat (bit_length d)"
      and d1: "1 \<le> bit_length d" by simp_all
    have a: "(2::rat) powi (bit_length n - 1) \<le> of_int n"
    proof -
      have "(2::rat) powi (bit_length n - 1) = of_int (2 ^ nat (bit_length n - 1))"
        using n1 by (simp add: power_int_def)
      also have "\<dots> \<le> of_int n" using ln by (simp only: of_int_le_iff)
      finally show ?thesis .
    qed
    have b: "of_int d \<le> (2::rat) powi (bit_length d)"
    proof -
      have "(of_int d :: rat) \<le> of_int (2 ^ nat (bit_length d))"
        using ud by (simp only: of_int_le_iff)
      also have "\<dots> = (2::rat) powi (bit_length d)"
        using d1 by (simp add: power_int_def)
      finally show ?thesis .
    qed
    have "pow2 (?k - 1) = (2::rat) powi ((bit_length n - 1) - bit_length d)"
      by (simp add: pow2_powi algebra_simps)
    also have "\<dots> = (2::rat) powi (bit_length n - 1) / 2 powi (bit_length d)"
      by (rule power_int_diff) simp
    also have "\<dots> \<le> of_int n / 2 powi (bit_length d)"
      using a by (intro divide_right_mono) simp_all
    also have "\<dots> \<le> of_int n / of_int d"
      using b d n by (intro divide_left_mono) simp_all
    finally have "pow2 (?k - 1) \<le> x" by (simp add: x)
    with False show ?thesis by (simp add: binade_def q Let_def)
  qed
qed

lemma round_half_even_err: "\<bar>of_int (round_half_even y) - y\<bar> \<le> 1 / 2"
proof -
  have "of_int \<lfloor>y\<rfloor> \<le> y" "y < of_int \<lfloor>y\<rfloor> + 1" by linarith+
  then show ?thesis
    by (auto simp: round_half_even_def Let_def abs_le_iff)
qed

lemma to_double_err:
  assumes "0 \<le> x"
  shows "\<bar>to_double x - x\<bar> \<le> x / 2 ^ 53"
proof (cases "x = 0")
  case True
  then show ?thesis by (simp add: to_double_def)
next
  case False
  with assms have pos: "0 < x" by simp
  let ?u = "pow2 (binade x - 52)"
  let ?r = "of_int (round_half_even (x / ?u)) :: rat"
  have u: "0 < ?u" by (rule pow2_pos)
  have td: "to_double x = ?r * ?u"
    using pos by (simp add: to_double_def Let_def)
  have "?r * ?u - x = (?r - x / ?u) * ?u"
    using u by (simp add: field_simps)
  then have "\<bar>?r * ?u - x\<bar> = \<bar>?r - x / ?u\<bar> * ?u"
    using u by (simp add: abs_mult)
  also have "\<dots> \<le> 1 / 2 * ?u"
    using round_half_even_err [of "x / ?u"] u by (intro mult_right_mono) simp_all
  also have "\<dots> = pow2 (binade x) / 2 ^ 53"
    using power_int_diff [of "2::rat" "binade x" 52] by (simp add: pow2_powi)
  also have "\<dots> \<le> x / 2 ^ 53"
    using binade_le [OF pos] by (intro divide_right_mono) simp_all
  finally show ?thesis by (simp add: td)
qed

lemma to_double_nonneg:
  assumes "0 \<le> x"
  shows "0 \<le> to_double x"
proof (cases "x = 0")
  case True
  then show ?thesis by (simp add: to_double_def)
next
  case False
  let ?u = "pow2 (binade \<bar>x\<bar> - 52)"
  have u: "0 < ?u" by (rule pow2_pos)
  with assms have "0 \<le> \<bar>x\<bar> / ?u" by simp
  then have "0 \<le> round_half_even (\<bar>x\<bar> / ?u)"
    by (auto simp: round_half_even_def Let_def)
  then have "0 \<le> (of_int (round_half_even (\<bar>x\<bar> / ?u)) :: rat) * ?u"
    using u by (intro mult_nonneg_nonneg) simp_all
  moreover from assms False have "sgn x = 1" by simp
  ultimately show ?thesis using False by (simp add: to_double_def Let_def)
qed

lemma abs_diff_leD:
  fixes a b e :: rat
  assumes "\<bar>a - b\<bar> \<le> e"
  shows "a - b \<le> e" and "b - a \<le> e"
  using assms by (simp_all add: abs_le_iff)

lemma percentage_bounds:
  fixes c t :: nat
  assumes t: "0 < t" and c: "c \<le> 2 ^ 44"
  shows "int (100 * c div t) - 1 \<le> \<lfloor>to_double (to_double (of_nat c / of_nat t) * 100)\<rfloor>
       \<and> \<lfloor>to_double (to_double (of_nat c / of_nat t) * 100)\<rfloor> \<le> int (100 * c div t)"
proof -
  define x :: rat where "x = of_nat c / of_nat t"
  define y1 where "y1 = to_double x"
  define y2 where "y2 = to_double (y1 * 100)"
  define Y :: rat where "Y = 100 * x"
  define E where "E = int (100 * c div t)"
  have x0: "0 \<le> x" by (simp add: x_def)
  define d :: rat where "d = x / 2 ^ 53"
  have d0: "0 \<le> d" using x0 by (simp add: d_def)
  have "\<bar>y1 - x\<bar> \<le> d"
    unfolding y1_def d_def by (rule to_double_err [OF x0])
  then have e1: "y1 - x \<le> d" "x - y1 \<le> d"
    by (rule abs_diff_leD)+
  have y10: "0 \<le> y1" unfolding y1_def by (rule to_double_nonneg [OF x0])
  have "d \<le> x" using x0 unfolding d_def by (simp add: field_simps)
  then have y1x: "y1 \<le> 2 * x" using e1 by linarith
  define d2 :: rat where "d2 = y1 * 100 / 2 ^ 53"
  have "\<bar>y2 - y1 * 100\<bar> \<le> d2"
    unfolding y2_def d2_def using y10 by (intro to_double_err) simp
  then have e2: "y2 - y1 * 100 \<le> d2" "y1 * 100 - y2 \<le> d2"
    by (rule abs_diff_leD)+
  have "d2 \<le> (2 * x) * 100 / 2 ^ 53"
    unfolding d2_def using y1x by (intro divide_right_mono mult_right_mono) simp_all
  also have "\<dots> = 200 * d" by (simp add: d_def)
  finally have e3: "d2 \<le> 200 * d" .
  have err: "y2 - Y \<le> 300 * d" "Y - y2 \<le> 300 * d"
    unfolding Y_def using e1 e2 e3 by linarith+
  have tpos: "0 < (of_nat t :: rat)" using t by simp
  have "300 * c < 2 ^ 53"
  proof -
    have "300 * c \<le> 300 * 2 ^ 44" using c by simp
    also have "\<dots> < (2::nat) ^ 53" by simp
    finally show ?thesis .
  qed
  then have "(of_nat (300 * c) :: rat) < of_nat (2 ^ 53)"
    by (simp only: of_nat_less_iff)
  then have c300: "300 * (of_nat c :: rat) < 2 ^ 53" by simp
  have small: "300 * d < 1 / of_nat t"
  proof -
    have "300 * d = (300 * of_nat c / 2 ^ 53) / of_nat t"
      by (simp add: d_def x_def)
    also have "\<dots> < 1 / of_nat t"
      using c300 tpos by (intro divide_strict_right_mono) simp_all
    finally show ?thesis .
  qed
  have t1: "1 / (of_nat t :: rat) \<le> 1" using t by simp
  have Yeq: "Y = of_nat (100 * c) / of_nat t" by (simp add: Y_def x_def)
  have Efloor: "E = \<lfloor>Y\<rfloor>"
    unfolding Yeq E_def by (simp only: floor_divide_of_nat_eq) 
  have EY: "of_int E \<le> Y" unfolding Efloor by simp
  have YE: "Y \<le> of_int E + 1 - 1 / of_nat t"
  proof -
    have "100 * c = t * (100 * c div t) + 100 * c mod t" by simp
    moreover have "100 * c mod t \<le> t - 1" using t by (simp add: less_Suc_eq_le [symmetric])
    ultimately have "100 * c + 1 \<le> t * (100 * c div t) + t" using t by linarith
    then have "(of_nat (100 * c + 1) :: rat) \<le> of_nat (t * (100 * c div t) + t)"
      by (simp only: of_nat_le_iff)
    then have "of_nat (100 * c) + 1 \<le> (of_nat t :: rat) * of_int E + of_nat t"
      by (simp add: E_def)
    then have "(of_nat (100 * c) + 1) / of_nat t \<le> (of_int E + 1 :: rat)"
      using tpos by (simp only: pos_divide_le_eq) (simp add: algebra_simps)
    moreover have "(of_nat (100 * c) + 1) / of_nat t = Y + 1 / of_nat t"
      unfolding Yeq by (simp only: add_divide_distrib)
    ultimately show ?thesis by linarith
  qed
  have lo: "of_int (E - 1) \<le> y2"
  proof -
    have "of_int E - 1 \<le> y2" using err small t1 EY by linarith
    then show ?thesis by simp
  qed
  have hi: "y2 < of_int (E + 1)"
  proof -
    have "y2 < of_int E + 1" using err small YE by linarith
    then show ?thesis by simp
  qed
  from lo have "E - 1 \<le> \<lfloor>y2\<rfloor>" by (simp only: le_floor_iff)
  moreover from hi have "\<lfloor>y2\<rfloor> < E + 1" by (simp only: floor_less_iff)
  ultimately show ?thesis
    unfolding y2_def y1_def x_def E_def by simp
qed

section \<open>Properties of the progress query\<close>

lemma percentage_nonneg:
  "\<exists>n. 0 \<le> n \<and> percentage (getProgress dp) = Num (of_int n)"
proof (cases "total dp = 0")
  case True
  then have "percentage (getProgress dp) = Num (of_int 0)"
    by (simp add: getProgress_def)
  then show ?thesis by blast
next
  case False
  let ?y = "to_double (to_double (of_nat (completed dp) / of_nat (total dp)) * 100)"
  have "0 \<le> to_double (of_nat (completed dp) / of_nat (total dp))"
    by (rule to_double_nonneg) simp
  then have "0 \<le> ?y"
    by (intro to_double_nonneg mult_nonneg_nonneg) simp_all
  then have "0 \<le> \<lfloor>?y\<rfloor>" by simp
  moreover from False have "percentage (getProgress dp) = Num (of_int \<lfloor>?y\<rfloor>)"
    by (simp add: getProgress_def)
  ultimately show ?thesis by blast
qed

lemma percentage_near_exact:
  assumes "total dp \<noteq> 0" and "completed dp \<le> 2 ^ 44"
  shows "percentage (getProgress dp) = Num (of_int (int (100 * completed dp div total dp)))
       \<or> percentage (getProgress dp) = Num (of_int (int (100 * completed dp div total dp) - 1))"
proof -
  let ?y = "to_double (to_double (of_nat (completed dp) / of_nat (total dp)) * 100)"
  let ?E = "int (100 * completed dp div total dp)"
  from assms have "?E - 1 \<le> \<lfloor>?y\<rfloor> \<and> \<lfloor>?y\<rfloor> \<le> ?E"
    by (intro percentage_bounds) simp_all
  then have "\<lfloor>?y\<rfloor> = ?E \<or> \<lfloor>?y\<rfloor> = ?E - 1" by linarith
  moreover from assms have "percentage (getProgress dp) = Num (of_int \<lfloor>?y\<rfloor>)"
    by (simp add: getProgress_def)
  ultimately show ?thesis by metis
qed

lemma unguarded_division_by_zero:
  "js_floor (js_mul (js_div (Num (of_nat c)) (Num 0)) (Num 100)) = (if c = 0 then NaN else Infinity)"
  by simp

text \<open>
  Claim C10. \<open>getProgress\<close> returns a value in every state, and its percentage is always
  a finite non-negative integer. When \<open>total\<close> is 0 the percentage is 0: the division is
  not evaluated, and the quotient the guard avoids would have made the percentage \<open>NaN\<close>
  (for \<open>0 / 0\<close>) or \<open>Infinity\<close>. Otherwise the percentage is
  \<open>Math.floor((completed / total) * 100)\<close>, the quotient and the product being the
  double-precision operations of the source language; for counters up to \<open>2^44\<close> that
  is the exact \<open>\<lfloor>100 * completed / total\<rfloor>\<close> or one less (29 of 100 comes out as 28).
  The other three fields are the tracked ones.
\<close>

theorem getProgress_total_function:
  "(\<exists>n. 0 \<le> n \<and> percentage (getProgress dp) = Num (of_int n))
   \<and> (total dp = 0 \<longrightarrow> percentage (getProgress dp) = Num 0)
   \<and> (total dp = 0 \<longrightarrow>
        js_floor (js_mul (js_div (Num (of_nat (completed dp))) (Num (of_nat (total dp)))) (Num 100))
          = (if completed dp = 0 then NaN else Infinity))
   \<and> (total dp \<noteq> 0 \<longrightarrow>
        percentage (getProgress dp)
          = js_floor (js_mul (js_div (Num (of_nat (completed dp))) (Num (of_nat (total dp)))) (Num 100)))
   \<and> (total dp \<noteq> 0 \<and> completed dp \<le> 2 ^ 44 \<longrightarrow>
        percentage (getProgress dp) = Num (of_int (int (100 * completed dp div total dp)))
        \<or> percentage (getProgress dp) = Num (of_int (int (100 * completed dp div total dp) - 1)))
   \<and> total (getProgress dp) = total dp
   \<and> completed (getProgress dp) = completed dp
   \<and> current (getProgress dp) = current dp"
proof -
  have a: "\<exists>n. 0 \<le> n \<and> percentage (getProgress dp) = Num (of_int n)"
    by (rule percentage_nonneg)
  have b: "total dp = 0 \<longrightarrow> percentage (getProgress dp) = Num 0"
    by (simp add: getProgress_def)
  have c: "total dp = 0 \<longrightarrow>
        js_floor (js_mul (js_div (Num (of_nat (completed dp))) (Num (of_nat (total dp)))) (Num 100))
          = (if completed dp = 0 then NaN else Infinity)"
    using unguarded_division_by_zero [of "completed dp"] by simp
  have d: "total dp \<noteq> 0 \<longrightarrow>
        percentage (getProgress dp)
          = js_floor (js_mul (js_div (Num (of_nat (completed dp))) (Num (of_nat (total dp)))) (Num 100))"
    by (simp add: getProgress_def)
  have e: "total dp \<noteq> 0 \<and> completed dp \<le> 2 ^ 44 \<longrightarrow>
        percentage (getProgress dp) = Num (of_int (int (100 * completed dp div total dp)))
        \<or> percentage (getProgress dp) = Num (of_int (int (100 * completed dp div total dp) - 1))"
    using percentage_near_exact [of dp] by blast
  have f: "total (getProgress dp) = total dp \<and> completed (getProgress dp) = completed dp
        \<and> current (getProgress dp) = current dp"
    by (simp add: getProgress_def)
  from a b c d e f show ?thesis by blast
qed

theorem getProgress_total_function_witness:
  "percentage (getProgress \<lparr>total = 0, completed = 7, current = ''a.jar''\<rparr>) = Num 0
   \<and> js_floor (js_mul (js_div (Num (of_nat 7)) (Num (of_nat 0))) (Num 100)) = Infinity
   \<and> percentage (getProgress \<lparr>total = 4, completed = 3, current = ''a.jar''\<rparr>) = Num 75
   \<and> percentage (getProgress \<lparr>total = 100, completed = 29, current = ''a.jar''\<rparr>) = Num 28
   \<and> percentage (getProgress \<lparr>total = 100, completed = 7, current = ''a.jar''\<rparr>) = Num 7
   \<and> percentage (getProgress \<lparr>total = 100, completed = 3, current = ''a.jar''\<rparr>) = Num 3
   \<and> int (100 * 29 div 100) - 1 = 28"
proof -
  have a: "js_floor (js_mul (js_div (Num (of_nat 3)) (Num (of_nat 4))) (Num 100)) = Num 75"
    by code_simp
  have b: "js_floor (js_mul (js_div (Num (of_nat 29)) (Num (of_nat 100))) (Num 100)) = Num 28"
    by code_simp
  have c: "js_floor (js_mul (js_div (Num (of_nat 7)) (Num (of_nat 100))) (Num 100)) = Num 7"
    by code_simp
  have d: "js_floor (js_mul (js_div (Num (of_nat 3)) (Num (of_nat 100))) (Num 100)) = Num 3"
    by code_simp
  show ?thesis
    using getProgress_total_function [of "\<lparr>total = 0, completed = 7, current = ''a.jar''\<rparr>"]
      getProgress_total_function [of "\<lparr>total = 4, completed = 3, current = ''a.jar''\<rparr>"]
      getProgress_total_function [of "\<lparr>total = 100, completed = 29, current = ''a.jar''\<rparr>"]
      getProgress_total_function [of "\<lparr>total = 100, completed = 7, current = ''a.jar''\<rparr>"]
      getProgress_total_function [of "\<lparr>total = 100, completed = 3, current = ''a.jar''\<rparr>"]
      a b c d
    by simp
qed

section \<open>Properties of the asset store\<close>

lemma verifyAsset_valid_iff:
  "valid (verifyAsset env sha1 fs p h) \<longleftrightarrow>
     (\<exists>bytes. fs p = Some bytes \<and> can_read env p \<and> toLowerCase (sha1 bytes) = toLowerCase h)"
  by (auto simp: verifyAsset_def computeFileHash_def split: option.splits)

lemma verifyAsset_mismatch:
  "fs p = Some bytes \<Longrightarrow> can_read env p \<Longrightarrow> toLowerCase (sha1 bytes) \<noteq> toLowerCase h \<Longrightarrow>
   verifyAsset env sha1 fs p h = \<lparr>valid = False, reason = Some ''hash_mismatch''\<rparr>"
  by (simp add: verifyAsset_def computeFileHash_def)

text \<open>
  The utilities' \<open>verifyHash\<close> resolves to \<open>true\<close> in exactly the cases in which
  \<open>verifyAsset\<close> answers \<open>valid = true\<close>.
\<close>

lemma verifyHash_iff_valid:
  "verifyHash env sha1 fs p h = Some True \<longleftrightarrow> valid (verifyAsset env sha1 fs p h)"
  by (auto simp: verifyHash_def verifyAsset_def computeFileHash_def split: option.splits)

text \<open>
  What \<open>verifyAsset\<close> answers after the bytes of a valid file have been replaced is
  decided by the digest alone: \<open>hash_mismatch\<close> when the digest of the new bytes differs
  from that of the old ones, and \<open>valid = true\<close> again when the two digests coincide.
  Nothing in the verifier tells two contents with one digest apart.
\<close>

lemma verifyAsset_after_change:
  assumes "fs p = Some bytes" and "valid (verifyAsset env sha1 fs p h)"
  shows "verifyAsset env sha1 (fs(p \<mapsto> bytes')) p h =
           (if toLowerCase (sha1 bytes') \<noteq> toLowerCase (sha1 bytes)
            then \<lparr>valid = False, reason = Some ''hash_mismatch''\<rparr>
            else \<lparr>valid = True, reason = None\<rparr>)"
proof -
  from assms have r: "can_read env p" and d: "toLowerCase (sha1 bytes) = toLowerCase h"
    by (auto simp: verifyAsset_valid_iff)
  then show ?thesis
    by (simp add: verifyAsset_def computeFileHash_def)
qed

lemma ensure_copy_loop_keeps:
  "fs p = Some c \<Longrightarrow> fst (ensure_copy_loop env d objs fs n) p = Some c"
proof (induction objs arbitrary: fs n)
  case Nil
  then show ?case by simp
next
  case (Cons e objs)
  obtain a h where e: "e = (a, h)" by (cases e)
  show ?case
    using Cons.prems
    by (auto simp: e Let_def intro!: Cons.IH split: option.splits)
qed

text \<open>The game module's \<open>ensureVirtualAssetsSetup\<close> never replaces an existing file.\<close>

lemma ensureVirtualAssetsSetup_keeps_existing:
  "fs p = Some c \<Longrightarrow> ensureVirtualAssetsSetup env d idx hasContent fs p = Some c"
  by (simp add: ensureVirtualAssetsSetup_def ensure_copy_loop_keeps)

text \<open>
  Claim C8 says that an object whose destination file already exists is skipped and
  never overwritten. \<open>createVirtualAssets\<close>, the materialization that asset download and
  asset verification run, copies without looking at the destination: with the object
  \<open>abcd\<close> in the store holding \<open>NEW\<close> and the legacy file \<open>icons/a.png\<close> holding
  \<open>OLD\<close>, the legacy file holds \<open>NEW\<close> afterwards and the object counts as processed.
\<close>

theorem createVirtualAssets_overwrites_existing:
  "materialize io_ok ''assets'' \<lparr>virtual = True, objects = [(''icons/a.png'', ''abcd'')]\<rparr>
     [''assets/objects/ab/abcd'' \<mapsto> ''NEW'', ''assets/virtual/legacy/icons/a.png'' \<mapsto> ''OLD'']
     ''assets/virtual/legacy/icons/a.png'' = Some ''NEW''
   \<and> snd (createVirtualAssets io_ok ''assets''
        \<lparr>virtual = True, objects = [(''icons/a.png'', ''abcd'')]\<rparr>
        [''assets/objects/ab/abcd'' \<mapsto> ''NEW'', ''assets/virtual/legacy/icons/a.png'' \<mapsto> ''OLD''])
      = 1"
  by (simp add: materialize_def createVirtualAssets_def object_path_def virtual_path_def
      io_ok_def)

section \<open>Properties of the batch download\<close>

lemma start_workers_eq:
  "n \<le> length (queue p) \<Longrightarrow>
   start_workers n p = p\<lparr>queue := drop n (queue p), inProgress := inProgress p @ take n (queue p)\<rparr>"
proof (induction n arbitrary: p)
  case 0
  then show ?case by simp
next
  case (Suc n)
  then obtain f rest where q: "queue p = f # rest" by (cases "queue p") auto
  with Suc.prems have "n \<le> length (queue (processNext p))"
    by (simp add: processNext_def)
  from Suc.IH [OF this] show ?case
    by (simp add: processNext_def q)
qed

lemma loop_count_le:
  "\<exists>m. loop_count (initialBatch k files) = Some m \<and> m \<le> length files"
proof (cases k)
  case (Num a)
  have "\<lceil>min a (of_nat (length files))\<rceil> \<le> \<lceil>(of_nat (length files) :: rat)\<rceil>"
    by (rule ceiling_mono) simp
  then have "nat \<lceil>min a (of_nat (length files))\<rceil> \<le> length files"
    by simp
  with Num show ?thesis by (simp add: initialBatch_def)
qed (simp_all add: initialBatch_def)

lemma loop_count_integer:
  assumes "1 \<le> n"
  shows "loop_count (initialBatch (Num (of_int n)) files) = Some (min (nat n) (length files))"
proof -
  have "min (of_int n :: rat) (of_nat (length files)) = of_int (min n (int (length files)))"
    by (simp add: min_def)
  then have "\<lceil>min (of_int n :: rat) (of_nat (length files))\<rceil> = min n (int (length files))"
    by (simp only: ceiling_of_int)
  moreover from assms have "nat (min n (int (length files))) = min (nat n) (length files)"
    by (auto simp: min_def nat_le_iff)
  ultimately show ?thesis by (simp add: initialBatch_def)
qed

lemma start_eq:
  "\<exists>m. m \<le> length files \<and>
     start k files =
       Some \<lparr>queue = drop m files, inProgress = take m files, results = [], errors = []\<rparr>"
proof -
  from loop_count_le [of k files] obtain m
    where m: "loop_count (initialBatch k files) = Some m" "m \<le> length files" by blast
  from m(2) have "start_workers m \<lparr>queue = files, inProgress = [], results = [], errors = []\<rparr>
      = \<lparr>queue = drop m files, inProgress = take m files, results = [], errors = []\<rparr>"
    by (subst start_workers_eq) simp_all
  with m show ?thesis by (auto simp: start_def)
qed

lemma start_integer:
  assumes "1 \<le> n"
  shows "start (Num (of_int n)) files =
       Some \<lparr>queue = drop (nat n) files, inProgress = take (nat n) files,
             results = [], errors = []\<rparr>"
proof -
  let ?m = "min (nat n) (length files)"
  have "start_workers ?m \<lparr>queue = files, inProgress = [], results = [], errors = []\<rparr>
      = \<lparr>queue = drop ?m files, inProgress = take ?m files, results = [], errors = []\<rparr>"
    by (subst start_workers_eq) simp_all
  moreover have "drop ?m files = drop (nat n) files" "take ?m files = take (nat n) files"
    by (simp_all add: min_def)
  ultimately show ?thesis
    using loop_count_integer [OF assms, of files] by (simp add: start_def)
qed

lemma remove_nth_mset:
  "i < length xs \<Longrightarrow> mset (take i xs @ drop (Suc i) xs) + {#xs ! i#} = mset xs"
  by (metis add_mset_add_single id_take_nth_drop mset.simps(2) mset_append union_mset_add_mset_right)

lemma settle_bound:
  assumes "settle i ok p = Some p'" "length (inProgress p) \<le> b"
  shows "length (inProgress p') \<le> b"
  using assms
  by (auto simp: settle_def Let_def processNext_def split: if_splits list.splits)

lemma settle_busy:
  assumes "settle i ok p = Some p'" "queue p \<noteq> [] \<longrightarrow> inProgress p \<noteq> []"
  shows "queue p' \<noteq> [] \<longrightarrow> inProgress p' \<noteq> []"
  using assms
  by (auto simp: settle_def Let_def processNext_def split: if_splits list.splits)

lemma settle_measure:
  assumes "settle i ok p = Some p'"
  shows "Suc (length (queue p') + length (inProgress p')) = length (queue p) + length (inProgress p)"
  using assms
  by (auto simp: settle_def Let_def processNext_def split: if_splits list.splits)

lemma settle_mset:
  assumes "settle i ok p = Some p'"
  shows "mset (queue p' @ inProgress p' @ results p' @ errors p') =
         mset (queue p @ inProgress p @ results p @ errors p)"
proof -
  from assms have i: "i < length (inProgress p)"
    by (simp add: settle_def split: if_splits)
  from remove_nth_mset [OF i] show ?thesis
    using assms i
    by (auto simp: settle_def Let_def processNext_def split: if_splits list.splits)
qed

lemma run_invariants:
  assumes "run sched p = Some p'"
  shows "(length (inProgress p) \<le> b \<longrightarrow> length (inProgress p') \<le> b)
       \<and> ((queue p \<noteq> [] \<longrightarrow> inProgress p \<noteq> []) \<longrightarrow> (queue p' \<noteq> [] \<longrightarrow> inProgress p' \<noteq> []))
       \<and> mset (queue p' @ inProgress p' @ results p' @ errors p') =
           mset (queue p @ inProgress p @ results p @ errors p)
       \<and> length sched + length (queue p') + length (inProgress p') =
           length (queue p) + length (inProgress p)"
  using assms
proof (induction sched arbitrary: p)
  case Nil
  then show ?case by simp
next
  case (Cons e sched)
  obtain i ok where e: "e = (i, ok)" by (cases e)
  from Cons.prems e obtain q where s: "settle i ok p = Some q" and r: "run sched q = Some p'"
    by (auto split: option.splits)
  note ih = Cons.IH [OF r]
  show ?case
    using ih settle_bound [OF s, of b] settle_busy [OF s] settle_mset [OF s] settle_measure [OF s]
    by (simp add: e)
qed

text \<open>
  Claim C7, as stated, fails for a concurrency bound that is not a positive integer.
  With the bound 0 the start loop starts no worker, the caller resumes at once, and the
  one queued task is reported neither as succeeded nor as failed. With the bound 1.5
  the loop runs for \<open>i = 0\<close> and \<open>i = 1\<close>, so two downloads are pending at once,
  more than the bound.
\<close>

theorem concurrency_bound_counterexamples:
  "start (Num 0) [task ''a''] =
     Some \<lparr>queue = [task ''a''], inProgress = [], results = [], errors = []\<rparr>
   \<and> run [] \<lparr>queue = [task ''a''], inProgress = [], results = [], errors = []\<rparr> =
     Some \<lparr>queue = [task ''a''], inProgress = [], results = [], errors = []\<rparr>
   \<and> finished \<lparr>queue = [task ''a''], inProgress = [], results = [], errors = []\<rparr>
   \<and> batch_summary [task ''a'']
        \<lparr>queue = [task ''a''], inProgress = [], results = [], errors = []\<rparr> =
       \<lparr>batch_total = 1, successful = 0, failed = 0\<rparr>
   \<and> start (Num (3 / 2)) [task ''a'', task ''b'', task ''c''] =
     Some \<lparr>queue = [task ''c''], inProgress = [task ''a'', task ''b''],
           results = [], errors = []\<rparr>
   \<and> (3 / 2 :: rat) < of_nat (length [task ''a'', task ''b''])"
proof -
  have c: "\<lceil>3 / 2 :: rat\<rceil> = 2" by (simp add: ceiling_unique)
  have m: "min (3 / 2 :: rat) 3 = 3 / 2" by simp
  show ?thesis
    by (simp add: start_def initialBatch_def finished_def batch_summary_def c m
        eval_nat_numeral processNext_def)
qed

text \<open>
  Claim C7, amended. For every task queue and every integer concurrency bound \<open>k \<ge> 1\<close>,
  the batch download starts with the first \<open>k\<close> tasks pending and, in every run: at no
  moment are more than \<open>k\<close> downloads pending; at every moment each submitted task is in
  exactly one of queue, in progress, succeeded, failed; the run ends after exactly as many
  settlements as there are tasks, and before that some download is pending; and at the end
  the succeeded and failed tasks together are the submitted ones, so their counts add up
  to the total.
\<close>

theorem batch_download_bounded_and_complete:
  assumes "1 \<le> n"
  shows "start (Num (of_int n)) files =
           Some \<lparr>queue = drop (nat n) files, inProgress = take (nat n) files,
                 results = [], errors = []\<rparr>
         \<and> (run sched \<lparr>queue = drop (nat n) files, inProgress = take (nat n) files,
                         results = [], errors = []\<rparr> = Some p \<longrightarrow>
              int (length (inProgress p)) \<le> n
              \<and> mset (queue p @ inProgress p @ results p @ errors p) = mset files
              \<and> length sched \<le> length files
              \<and> (finished p \<longleftrightarrow> length sched = length files)
              \<and> (finished p \<longrightarrow>
                   mset (results p @ errors p) = mset files
                   \<and> successful (batch_summary files p) + failed (batch_summary files p) =
                       batch_total (batch_summary files p)))"
proof (rule conjI)
  show "start (Num (of_int n)) files =
           Some \<lparr>queue = drop (nat n) files, inProgress = take (nat n) files,
                 results = [], errors = []\<rparr>"
    by (rule start_integer [OF assms])
next
  let ?init = "\<lparr>queue = drop (nat n) files, inProgress = take (nat n) files,
              results = [], errors = []\<rparr>"
  show "run sched ?init = Some p \<longrightarrow>
      int (length (inProgress p)) \<le> n
      \<and> mset (queue p @ inProgress p @ results p @ errors p) = mset files
      \<and> length sched \<le> length files
      \<and> (finished p \<longleftrightarrow> length sched = length files)
      \<and> (finished p \<longrightarrow>
           mset (results p @ errors p) = mset files
           \<and> successful (batch_summary files p) + failed (batch_summary files p) =
               batch_total (batch_summary files p))"
  proof
  assume r: "run sched ?init = Some p"
  note inv = run_invariants [OF r, of "length (take (nat n) files)"]
  from inv have b: "length (inProgress p) \<le> length (take (nat n) files)" by simp
  from assms have "int (length (take (nat n) files)) \<le> n" by simp
  with b have 1: "int (length (inProgress p)) \<le> n" by linarith
  have "mset (drop (nat n) files @ take (nat n) files) =
      mset (take (nat n) files @ drop (nat n) files)"
    by (simp only: mset_append add.commute)
  with inv have 2: "mset (queue p @ inProgress p @ results p @ errors p) = mset files"
    by simp
  from inv have m: "length sched + length (queue p) + length (inProgress p) = length files"
    by simp
  have "queue ?init \<noteq> [] \<longrightarrow> inProgress ?init \<noteq> []"
    using assms by (cases files) auto
  with inv have busy: "queue p \<noteq> [] \<longrightarrow> inProgress p \<noteq> []" by blast
  from m have 3: "length sched \<le> length files" by linarith
  have 4: "finished p \<longleftrightarrow> length sched = length files"
    using m busy by (auto simp: finished_def)
  have 5: "mset (results p @ errors p) = mset files
              \<and> successful (batch_summary files p) + failed (batch_summary files p) =
                  batch_total (batch_summary files p)" if "finished p"
  proof -
    from that busy have e: "inProgress p = []" "queue p = []" by (auto simp: finished_def)
    with 2 have ms: "mset (results p @ errors p) = mset files" by simp
    then have "length (results p @ errors p) = length files"
      by (metis size_mset)
    with ms show ?thesis by (simp add: batch_summary_def)
  qed
  from 1 2 3 4 5
  show "int (length (inProgress p)) \<le> n
      \<and> mset (queue p @ inProgress p @ results p @ errors p) = mset files
      \<and> length sched \<le> length files
      \<and> (finished p \<longleftrightarrow> length sched = length files)
      \<and> (finished p \<longrightarrow>
           mset (results p @ errors p) = mset files
           \<and> successful (batch_summary files p) + failed (batch_summary files p) =
               batch_total (batch_summary files p))"
    by blast
  qed
qed

theorem batch_download_bounded_and_complete_witness:
  "(1::int) \<le> 2
   \<and> start (Num (of_int 2)) [task ''a'', task ''b'', task ''c''] =
       Some \<lparr>queue = [task ''c''], inProgress = [task ''a'', task ''b''],
             results = [], errors = []\<rparr>
   \<and> run [(1, True), (0, False), (0, True)]
         \<lparr>queue = [task ''c''], inProgress = [task ''a'', task ''b''],
          results = [], errors = []\<rparr> =
       Some \<lparr>queue = [], inProgress = [], results = [task ''b'', task ''c''],
             errors = [task ''a'']\<rparr>
   \<and> finished \<lparr>queue = [], inProgress = [], results = [task ''b'', task ''c''],
             errors = [task ''a'']\<rparr>
   \<and> successful (batch_summary [task ''a'', task ''b'', task ''c'']
        \<lparr>queue = [], inProgress = [], results = [task ''b'', task ''c''],
         errors = [task ''a'']\<rparr>)
     + failed (batch_summary [task ''a'', task ''b'', task ''c'']
        \<lparr>queue = [], inProgress = [], results = [task ''b'', task ''c''],
         errors = [task ''a'']\<rparr>)
     = batch_total (batch_summary [task ''a'', task ''b'', task ''c'']
        \<lparr>queue = [], inProgress = [], results = [task ''b'', task ''c''],
         errors = [task ''a'']\<rparr>)"
proof -
  let ?files = "[task ''a'', task ''b'', task ''c'']"
  let ?init = "\<lparr>queue = [task ''c''], inProgress = [task ''a'', task ''b''],
             results = [], errors = []\<rparr>"
  let ?p = "\<lparr>queue = [], inProgress = [], results = [task ''b'', task ''c''],
             errors = [task ''a'']\<rparr>"
  have k: "(1::int) \<le> 2" by simp
  have d: "drop (nat 2) ?files = [task ''c'']" "take (nat 2) ?files = [task ''a'', task ''b'']"
    by (simp_all add: eval_nat_numeral)
  have r: "run [(1, True), (0, False), (0, True)] ?init = Some ?p"
    by code_simp
  have f: "finished ?p" by (simp add: finished_def)
  from batch_download_bounded_and_complete
         [OF k, of ?files "[(1, True), (0, False), (0, True)]" ?p]
  show ?thesis
    unfolding d using k r f by simp
qed

section \<open>Properties of the single-file download\<close>

lemma temp_path_neq: "temp_path d \<noteq> d"
  by (simp add: temp_path_def)

lemma verify_downloaded_hvf:
  "verify_downloaded env sha1 d e fs = Some HashVerificationFailed \<Longrightarrow>
   \<exists>c h. e = Some h \<and> h \<noteq> [] \<and> fs d = Some c \<and> toLowerCase (sha1 c) \<noteq> toLowerCase h"
  by (auto simp: verify_downloaded_def verifyHash_def computeFileHash_def
      split: option.splits if_splits bool.splits)

lemma hvf_leaves_file:
  "(\<forall>st'. downloadFile env sha1 url d retries e st = (Inl HashVerificationFailed, st')
       \<longrightarrow> left_behind sha1 d e st')"
  "(\<forall>st'. download_attempts env sha1 url d retries attempt e st = (Inl HashVerificationFailed, st')
       \<longrightarrow> left_behind sha1 d e st')"
proof (induction env sha1 url d retries e st and env sha1 url d retries attempt e st
    rule: downloadFile_download_attempts.induct)
  case (1 env sha1 url destination retries expectedHash st)
  show ?case
    apply (subst downloadFile.simps)
    using 1
    apply (auto split: option.splits bool.splits if_splits)
    done
next
  case (2 env sha1 url destination retries attempt expectedHash st)
  show ?case
    apply (subst download_attempts.simps)
    using 2
    apply (auto split: option.splits bool.splits if_splits prod.splits response.splits sum.splits
        simp: left_behind_def dest!: verify_downloaded_hvf)
    done
qed

lemma attempts_all_mismatch:
  assumes "h \<noteq> []" "can_read env d" "can_write env d"
    and "\<forall>b\<in>set bodies. toLowerCase (sha1 b) \<noteq> toLowerCase h"
    and "bodies \<noteq> []"
    and "int attempt + int (length bodies) = retries"
  shows "download_attempts env sha1 url d retries attempt (Some h) (fs, map Ok bodies @ rest) =
           (Inl HashVerificationFailed, (fs(temp_path d := None, d \<mapsto> last bodies), rest))"
  using assms(4-6)
proof (induction bodies arbitrary: attempt fs)
  case Nil
  then show ?case by simp
next
  case (Cons b bs)
  let ?fs1 = "fs(temp_path d := None, d \<mapsto> b)"
  from Cons.prems(1) have mb: "toLowerCase (sha1 b) \<noteq> toLowerCase h" by simp
  have at: "?fs1 d = Some b" by simp
  have v: "verify_downloaded env sha1 d (Some h) ?fs1 = Some HashVerificationFailed"
    using assms(1,2) mb by (simp add: verify_downloaded_def verifyHash_def computeFileHash_def)
  have lt: "int attempt < retries" using Cons.prems(3) by simp
  show ?case
  proof (cases "bs = []")
    case True
    with Cons.prems(3) have "\<not> int attempt < retries - 1" by simp
    then show ?thesis
      using lt v assms(3) True
      by (subst download_attempts.simps) (simp add: next_response_def)
  next
    case False
    with Cons.prems(3) have lt1: "int attempt < retries - 1"
      by (cases bs) simp_all
    have ih: "download_attempts env sha1 url d retries (Suc attempt) (Some h)
        (?fs1, map Ok bs @ rest) =
        (Inl HashVerificationFailed, (?fs1(temp_path d := None, d \<mapsto> last bs), rest))"
      using Cons.prems False by (intro Cons.IH) simp_all
    have upd: "?fs1(temp_path d := None, d \<mapsto> last bs) = fs(temp_path d := None, d \<mapsto> last bs)"
      using temp_path_neq [of d] by (auto simp: fun_eq_iff)
    show ?thesis
      using lt lt1 v assms(3) False ih upd
      by (subst download_attempts.simps) (simp add: next_response_def)
  qed
qed

lemma downloadFile_all_mismatch:
  assumes "h \<noteq> []" "can_read env d" "can_write env d"
    and "1 \<le> retries" "length bodies = nat retries"
    and "\<forall>b\<in>set bodies. toLowerCase (sha1 b) \<noteq> toLowerCase h"
    and "\<forall>c. fs d = Some c \<longrightarrow> toLowerCase (sha1 c) \<noteq> toLowerCase h"
  shows "downloadFile env sha1 url d retries (Some h) (fs, map Ok bodies @ rest) =
           (Inl HashVerificationFailed, (fs(temp_path d := None, d \<mapsto> last bodies), rest))"
proof -
  from assms(4,5) have ne: "bodies \<noteq> []" and len: "int 0 + int (length bodies) = retries"
    by auto
  note a = attempts_all_mismatch [OF assms(1-3) assms(6) ne len, of url fs rest]
  show ?thesis
  proof (cases "fs d")
    case None
    then show ?thesis using a by (subst downloadFile.simps) simp
  next
    case (Some c)
    with assms(7) have "toLowerCase (sha1 c) \<noteq> toLowerCase h" by simp
    then have "verifyHash env sha1 fs d h = Some False"
      using Some assms(2) by (simp add: verifyHash_def computeFileHash_def)
    then show ?thesis using a Some assms(1)
      by (subst downloadFile.simps) (simp add: truthy_def)
  qed
qed

lemma launcher_hvf_leaves_file:
  "launcher_downloadFile env sha1 url d e fs rs = (Inl HashVerificationFailed, st') \<Longrightarrow>
   left_behind sha1 d e st'"
proof (induction rs arbitrary: url fs st')
  case Nil
  then show ?case
    by (auto split: option.splits bool.splits if_splits)
next
  case (Cons r rs)
  show ?case
  proof (cases r)
    case (Redirect loc)
    have direct: "left_behind sha1 d e st1"
      if "verify_downloaded env sha1 d e (fst st1) = Some HashVerificationFailed" for st1
      using verify_downloaded_hvf [OF that] by (auto simp: left_behind_def)
    obtain res st1 where inner: "launcher_downloadFile env sha1 loc d e
        (fs(temp_path d := None)) rs = (res, st1)"
      by (cases "launcher_downloadFile env sha1 loc d e (fs(temp_path d := None)) rs")
    show ?thesis
    proof (cases res)
      case (Inl err)
      with Cons.prems Redirect inner have "err = HashVerificationFailed" "st' = st1"
        by (auto split: option.splits bool.splits if_splits)
      with inner Inl show ?thesis by (auto dest: Cons.IH)
    next
      case (Inr v)
      with Cons.prems Redirect inner
      have "verify_downloaded env sha1 d e (fst st1) = Some HashVerificationFailed" "st' = st1"
        by (auto split: option.splits bool.splits if_splits)
      then show ?thesis by (auto dest: direct)
    qed
  next
    case (Ok body)
    with Cons.prems show ?thesis
      by (auto split: option.splits bool.splits if_splits prod.splits sum.splits
          simp: left_behind_def dest!: verify_downloaded_hvf)
  next
    case (Status n)
    with Cons.prems show ?thesis
      by (auto split: option.splits bool.splits if_splits)
  next
    case NetError
    with Cons.prems show ?thesis
      by (auto split: option.splits bool.splits if_splits)
  qed
qed

text \<open>
  When nothing that can reach the destination has the expected digest, no call reports a
  success, whatever the responses are: redirects, deliveries, error statuses, failures
  of the request, in any order, and whether or not the files can be read and written.
\<close>

lemma no_match_next:
  assumes "no_match sha1 d h st" "next_response (snd st) = (r, rs)"
  shows "no_match sha1 d h ((fst st)(temp_path d := None), rs)"
    and "r = Ok body \<Longrightarrow> no_match sha1 d h ((fst st)(temp_path d := None, d \<mapsto> body), rs)"
  using assms temp_path_neq [of d]
  by (auto simp: no_match_def next_response_def split: list.splits option.splits)

lemma verify_downloaded_no_match:
  assumes "h \<noteq> []" "no_match sha1 d h (fs, rs)"
  shows "\<exists>e. verify_downloaded env sha1 d (Some h) fs = Some e"
  using assms
  by (auto simp: no_match_def verify_downloaded_def verifyHash_def computeFileHash_def
      split: option.splits)

lemma verifyHash_no_match:
  assumes "no_match sha1 d h (fs, rs)"
  shows "verifyHash env sha1 fs d h \<noteq> Some True"
  using assms
  by (auto simp: no_match_def verifyHash_def computeFileHash_def split: option.splits)

lemma never_succeeds:
  "(\<forall>res st'. e = Some h \<and> h \<noteq> [] \<and> no_match sha1 d h st
       \<and> downloadFile env sha1 url d retries e st = (res, st')
       \<longrightarrow> no_match sha1 d h st' \<and> res \<noteq> Inr Downloaded \<and> res \<noteq> Inr Skipped
           \<and> (1 \<le> retries \<longrightarrow> (\<exists>err. res = Inl err)))"
  "(\<forall>res st'. e = Some h \<and> h \<noteq> [] \<and> no_match sha1 d h st
       \<and> download_attempts env sha1 url d retries attempt e st = (res, st')
       \<longrightarrow> no_match sha1 d h st' \<and> res \<noteq> Inr Downloaded \<and> res \<noteq> Inr Skipped
           \<and> (int attempt < retries \<longrightarrow> (\<exists>err. res = Inl err)))"
proof (induction env sha1 url d retries e st and env sha1 url d retries attempt e st
    rule: downloadFile_download_attempts.induct)
  case (1 env sha1 url destination retries expectedHash st)
  show ?case
  proof (intro allI impI)
    fix res st'
    assume a: "expectedHash = Some h \<and> h \<noteq> [] \<and> no_match sha1 destination h st
       \<and> downloadFile env sha1 url destination retries expectedHash st = (res, st')"
    then have e: "expectedHash = Some h" and h: "h \<noteq> []"
      and nm: "no_match sha1 destination h st"
      and run: "downloadFile env sha1 url destination retries expectedHash st = (res, st')"
      by blast+
    let ?goal = "no_match sha1 destination h st' \<and> res \<noteq> Inr Downloaded \<and> res \<noteq> Inr Skipped
           \<and> (1 \<le> retries \<longrightarrow> (\<exists>err. res = Inl err))"
    have att: ?goal
      if "download_attempts env sha1 url destination retries 0 expectedHash st = (res, st')"
        and "\<forall>res st'. expectedHash = Some h \<and> h \<noteq> [] \<and> no_match sha1 destination h st
          \<and> download_attempts env sha1 url destination retries 0 expectedHash st = (res, st')
          \<longrightarrow> no_match sha1 destination h st' \<and> res \<noteq> Inr Downloaded \<and> res \<noteq> Inr Skipped
            \<and> (int 0 < retries \<longrightarrow> (\<exists>err. res = Inl err))"
    proof -
      from that e h nm
      have "no_match sha1 destination h st' \<and> res \<noteq> Inr Downloaded \<and> res \<noteq> Inr Skipped
            \<and> (int 0 < retries \<longrightarrow> (\<exists>err. res = Inl err))"
        by blast
      moreover have "1 \<le> retries \<longrightarrow> int 0 < retries" by simp
      ultimately show ?thesis by blast
    qed
    show ?goal
    proof (cases "truthy expectedHash \<and> fst st destination \<noteq> None")
      case False
      have "downloadFile env sha1 url destination retries expectedHash st =
          download_attempts env sha1 url destination retries 0 expectedHash st"
        by (subst downloadFile.simps) (simp only: False if_False)
      with run have "download_attempts env sha1 url destination retries 0 expectedHash st = (res, st')"
        by simp
      then show ?thesis using "1.IH"(2) [OF False] by (rule att)
    next
      case True
      have eq: "downloadFile env sha1 url destination retries expectedHash st =
          (case verifyHash env sha1 (fst st) destination h of
             None \<Rightarrow> (Inl StreamError, st)
           | Some True \<Rightarrow> (Inr Skipped, st)
           | Some False \<Rightarrow> download_attempts env sha1 url destination retries 0 expectedHash st)"
        using True h by (subst downloadFile.simps) (simp add: e truthy_def)
      have v: "verifyHash env sha1 (fst st) destination h \<noteq> Some True"
        using verifyHash_no_match [of sha1 destination h "fst st" "snd st" env] nm by simp
      show ?thesis
      proof (cases "verifyHash env sha1 (fst st) destination h")
        case None
        with run eq nm show ?thesis by auto
      next
        case (Some b)
        with v have b: "\<not> b" by auto
        with Some run eq
        have "download_attempts env sha1 url destination retries 0 expectedHash st = (res, st')"
          by simp
        moreover have vf: "verifyHash env sha1 (fst st) destination
            (case expectedHash of None \<Rightarrow> [] | Some h \<Rightarrow> h) = Some False"
          using Some b e by simp
        ultimately show ?thesis
          using "1.IH"(1) [OF True vf refl] by (intro att)
      qed
    qed
  qed
next
  case (2 env sha1 url destination retries attempt expectedHash st)
  show ?case
  proof (intro allI impI)
    fix res st'
    assume a: "expectedHash = Some h \<and> h \<noteq> [] \<and> no_match sha1 destination h st
       \<and> download_attempts env sha1 url destination retries attempt expectedHash st = (res, st')"
    then have e: "expectedHash = Some h" and h: "h \<noteq> []"
      and nm: "no_match sha1 destination h st"
      and run: "download_attempts env sha1 url destination retries attempt expectedHash st = (res, st')"
      by blast+
    show "no_match sha1 destination h st' \<and> res \<noteq> Inr Downloaded \<and> res \<noteq> Inr Skipped
           \<and> (int attempt < retries \<longrightarrow> (\<exists>err. res = Inl err))"
    proof (cases "int attempt < retries")
      case False
      with run nm show ?thesis by (subst (asm) download_attempts.simps) auto
    next
      case True
      obtain r rs where nr: "next_response (snd st) = (r, rs)"
        by (cases "next_response (snd st)")
      note nm1 = no_match_next [OF nm nr]
      define outcome where "outcome =
        (case r of
           Redirect location \<Rightarrow>
             (case downloadFile env sha1 location destination (retries - 1) expectedHash
                     ((fst st)(temp_path destination := None), rs) of
                (Inl e, st') \<Rightarrow> (Some e, st')
              | (Inr v, st') \<Rightarrow> (None, st'))
         | Ok body \<Rightarrow>
             (if can_write env destination
              then (None, ((fst st)(temp_path destination := None, destination \<mapsto> body), rs))
              else (Some WriteError, ((fst st)(temp_path destination := None), rs)))
         | Status n \<Rightarrow>
             (Some (HttpStatusError n), ((fst st)(temp_path destination := None), rs))
         | NetError \<Rightarrow>
             (Some RequestError, ((fst st)(temp_path destination := None), rs)))"
      obtain rejected st1 where oc: "outcome = (rejected, st1)" by (cases outcome)
      have nm_st1: "no_match sha1 destination h st1"
      proof (cases r)
        case (Redirect location)
        obtain ires ist where inner: "downloadFile env sha1 location destination (retries - 1)
            expectedHash ((fst st)(temp_path destination := None), rs) = (ires, ist)"
          by (cases "downloadFile env sha1 location destination (retries - 1)
            expectedHash ((fst st)(temp_path destination := None), rs)")
        from "2.IH"(1) [OF True nr [symmetric] Redirect] e h nm1(1) inner
        have "no_match sha1 destination h ist" by blast
        moreover from oc inner Redirect have "st1 = ist"
          by (auto simp: outcome_def split: sum.splits)
        ultimately show ?thesis by simp
      next
        case (Ok body)
        with oc nm1 show ?thesis by (auto simp: outcome_def split: if_splits)
      next
        case (Status n)
        with oc nm1 show ?thesis by (auto simp: outcome_def)
      next
        case NetError
        with oc nm1 show ?thesis by (auto simp: outcome_def)
      qed
      define err where "err =
        (case rejected of
           Some e \<Rightarrow> Some e
         | None \<Rightarrow> verify_downloaded env sha1 destination expectedHash (fst st1))"
      have "\<exists>x. err = Some x"
      proof (cases rejected)
        case None
        from verify_downloaded_no_match [OF h, of sha1 destination "fst st1" "snd st1" env] nm_st1
        obtain y where "verify_downloaded env sha1 destination (Some h) (fst st1) = Some y"
          by auto
        with None show ?thesis by (simp add: err_def e)
      next
        case (Some y)
        then show ?thesis by (simp add: err_def)
      qed
      then obtain x where x: "err = Some x" by blast
      have unfold: "download_attempts env sha1 url destination retries attempt expectedHash st =
          (if int attempt < retries - 1
           then download_attempts env sha1 url destination retries (Suc attempt) expectedHash st1
           else (Inl x, st1))"
        using True nr oc x
        by (subst download_attempts.simps) (simp add: outcome_def [symmetric] err_def [symmetric])
      show ?thesis
      proof (cases "int attempt < retries - 1")
        case False
        with unfold run nm_st1 show ?thesis by auto
      next
        case lt: True
        with unfold run
        have "download_attempts env sha1 url destination retries (Suc attempt) expectedHash st1 = (res, st')"
          by simp
        with "2.IH"(2) [OF True nr [symmetric] oc [unfolded outcome_def, symmetric] x [unfolded err_def] lt]
          e h nm_st1
        have "no_match sha1 destination h st' \<and> res \<noteq> Inr Downloaded \<and> res \<noteq> Inr Skipped
           \<and> (int (Suc attempt) < retries \<longrightarrow> (\<exists>err. res = Inl err))"
          by blast
        moreover from lt have "int (Suc attempt) < retries" by simp
        ultimately show ?thesis by blast
      qed
    qed
  qed
qed

lemma launcher_never_succeeds:
  assumes h: "h \<noteq> []"
  shows "no_match sha1 d h (fs, rs) \<Longrightarrow>
     launcher_downloadFile env sha1 url d (Some h) fs rs = (res, st') \<Longrightarrow>
     no_match sha1 d h st' \<and> (\<exists>err. res = Inl err)"
proof (induction rs arbitrary: url fs res st')
  case Nil
  from Nil.prems(1) have nm': "no_match sha1 d h (fs(temp_path d := None), [])"
    using temp_path_neq [of d] by (auto simp: no_match_def split: option.splits)
  from verifyHash_no_match [OF Nil.prems(1), of env] Nil.prems nm' show ?case
    by (auto split: option.splits bool.splits if_splits)
next
  case (Cons r rs)
  have nr: "next_response (snd (fs, r # rs)) = (r, rs)" by (simp add: next_response_def)
  note nm1 = no_match_next [OF Cons.prems(1) nr, simplified]
  note vh = verifyHash_no_match [OF Cons.prems(1), of env]
  have vd: "\<exists>e. verify_downloaded env sha1 d (Some h) (fst st1) = Some e"
    if "no_match sha1 d h st1" for st1
    using verify_downloaded_no_match [OF h, of sha1 d "fst st1" "snd st1" env] that by simp
  show ?case
  proof (cases r)
    case (Redirect loc)
    obtain ires ist where inner: "launcher_downloadFile env sha1 loc d (Some h)
        (fs(temp_path d := None)) rs = (ires, ist)"
      by (cases "launcher_downloadFile env sha1 loc d (Some h) (fs(temp_path d := None)) rs")
    from Cons.IH [OF nm1(1) inner] obtain err where i: "no_match sha1 d h ist" "ires = Inl err"
      by blast
    from Cons.prems(2) Redirect inner i vh Cons.prems(1) show ?thesis
      by (auto split: option.splits bool.splits if_splits)
  next
    case (Ok body)
    from nm1(2) [OF Ok] have nmb: "no_match sha1 d h (fs(temp_path d := None, d \<mapsto> body), rs)" .
    from vd [OF nmb] obtain e where
      "verify_downloaded env sha1 d (Some h) (fs(temp_path d := None, d \<mapsto> body)) = Some e"
      by auto
    with Cons.prems(2) Ok vh Cons.prems(1) nm1(1) nmb show ?thesis
      by (auto split: option.splits bool.splits if_splits)
  next
    case (Status n)
    with Cons.prems vh nm1(1) show ?thesis
      by (auto split: option.splits bool.splits if_splits)
  next
    case NetError
    with Cons.prems vh nm1(1) show ?thesis
      by (auto split: option.splits bool.splits if_splits)
  qed
qed

lemma launcher_redirects_then_mismatch:
  assumes "h \<noteq> []" "can_read env d" "can_write env d"
    and mb: "toLowerCase (sha1 body) \<noteq> toLowerCase h"
  shows "(\<forall>c. fs d = Some c \<longrightarrow> toLowerCase (sha1 c) \<noteq> toLowerCase h) \<Longrightarrow>
     launcher_downloadFile env sha1 url d (Some h) fs (map Redirect locs @ Ok body # rest) =
       (Inl HashVerificationFailed, (fs(temp_path d := None, d \<mapsto> body), rest))"
proof (induction locs arbitrary: url fs)
  case Nil
  have pre: "(if fs d \<noteq> None \<and> truthy (Some h)
            then verifyHash env sha1 fs d (case Some h of None \<Rightarrow> [] | Some h \<Rightarrow> h)
            else Some False) = Some False"
    using Nil assms(2) by (auto simp: verifyHash_def computeFileHash_def)
  have v: "verify_downloaded env sha1 d (Some h) (fs(temp_path d := None, d \<mapsto> body))
      = Some HashVerificationFailed"
    using assms by (simp add: verify_downloaded_def verifyHash_def computeFileHash_def)
  have c: "can_write env d = True" using assms(3) by simp
  show ?case
    apply (simp only: list.map append_Nil)
    apply (subst launcher_downloadFile.simps)
    apply (subst pre)
    apply (simp only: option.case bool.case response.case c if_True prod.case fst_conv v)
    done
next
  case (Cons loc locs)
  have pre: "(if fs d \<noteq> None \<and> truthy (Some h)
            then verifyHash env sha1 fs d (case Some h of None \<Rightarrow> [] | Some h \<Rightarrow> h)
            else Some False) = Some False"
    using Cons.prems assms(2) by (auto simp: verifyHash_def computeFileHash_def)
  have pre0: "\<forall>c. (fs(temp_path d := None)) d = Some c \<longrightarrow> toLowerCase (sha1 c) \<noteq> toLowerCase h"
    using Cons.prems temp_path_neq [of d] by auto
  have ih: "launcher_downloadFile env sha1 loc d (Some h) (fs(temp_path d := None))
      (map Redirect locs @ Ok body # rest) =
      (Inl HashVerificationFailed, ((fs(temp_path d := None))(temp_path d := None, d \<mapsto> body), rest))"
    using pre0 by (rule Cons.IH)
  show ?case
    apply (simp only: list.map append_Cons)
    apply (subst launcher_downloadFile.simps)
    apply (subst pre)
    apply (simp only: option.case bool.case response.case prod.case sum.case ih fun_upd_upd)
    done
qed

lemma redirected_attempts_all_mismatch:
  assumes "h \<noteq> []" "can_read env d" "can_write env d" "2 \<le> retries"
  shows "groups \<noteq> [] \<Longrightarrow>
     int attempt + int (length groups) = retries \<Longrightarrow>
     list_all (\<lambda>(loc, bs). length bs = nat (retries - 1)
        \<and> list_all (\<lambda>b. toLowerCase (sha1 b) \<noteq> toLowerCase h) bs) groups \<Longrightarrow>
     (\<forall>c. fs d = Some c \<longrightarrow> toLowerCase (sha1 c) \<noteq> toLowerCase h) \<Longrightarrow>
     download_attempts env sha1 url d retries attempt (Some h)
         (fs, redirected_attempts groups @ rest) =
       (Inl HashVerificationFailed,
        (fs(temp_path d := None, d \<mapsto> last (snd (last groups))), rest))"
proof (induction groups arbitrary: attempt fs)
  case Nil
  then show ?case by simp
next
  case (Cons g gs)
  obtain loc bs where g: "g = (loc, bs)" by (cases g)
  from Cons.prems(3) g have len: "length bs = nat (retries - 1)"
    and mm: "\<forall>b\<in>set bs. toLowerCase (sha1 b) \<noteq> toLowerCase h"
    by (simp_all add: list_all_iff)
  from len assms(4) have ne: "bs \<noteq> []" by auto
  let ?fs0 = "fs(temp_path d := None)"
  let ?fs1 = "fs(temp_path d := None, d \<mapsto> last bs)"
  let ?rest = "redirected_attempts gs @ rest"
  have pre0: "\<forall>c. ?fs0 d = Some c \<longrightarrow> toLowerCase (sha1 c) \<noteq> toLowerCase h"
    using Cons.prems(4) temp_path_neq [of d] by auto
  have r1: "1 \<le> retries - 1" using assms(4) by simp
  have inner: "downloadFile env sha1 loc d (retries - 1) (Some h) (?fs0, map Ok bs @ ?rest) =
      (Inl HashVerificationFailed, (?fs1, ?rest))"
    using downloadFile_all_mismatch
      [where fs = ?fs0 and d = d and h = h and env = env and ?sha1.0 = sha1
         and retries = "retries - 1" and bodies = bs and url = loc and rest = ?rest,
       OF assms(1-3) r1 len mm pre0]
    by simp
  have nr: "next_response (snd (fs, redirected_attempts (g # gs) @ rest)) =
      (Redirect loc, map Ok bs @ ?rest)"
    by (simp add: next_response_def redirected_attempts_def g)
  have lt: "int attempt < retries" using Cons.prems(2) by simp
  show ?case
  proof (cases "gs = []")
    case True
    with Cons.prems(2) have "\<not> int attempt < retries - 1" by simp
    then show ?thesis
      using lt nr inner True g
      by (subst download_attempts.simps) (simp add: redirected_attempts_def)
  next
    case False
    with Cons.prems(2) have lt1: "int attempt < retries - 1"
      by (cases gs) simp_all
    have pre1: "\<forall>c. ?fs1 d = Some c \<longrightarrow> toLowerCase (sha1 c) \<noteq> toLowerCase h"
      using mm ne by simp
    have ih: "download_attempts env sha1 url d retries (Suc attempt) (Some h) (?fs1, ?rest) =
        (Inl HashVerificationFailed,
         (?fs1(temp_path d := None, d \<mapsto> last (snd (last gs))), rest))"
      using Cons.prems False pre1 by (intro Cons.IH) simp_all
    have upd: "?fs1(temp_path d := None, d \<mapsto> last (snd (last gs))) =
        fs(temp_path d := None, d \<mapsto> last (snd (last gs)))"
      using temp_path_neq [of d] by (auto simp: fun_eq_iff)
    show ?thesis
      using lt lt1 nr inner False ih upd
      by (subst download_attempts.simps) simp
  qed
qed

lemma downloadFile_redirected_all_mismatch:
  assumes "h \<noteq> []" "can_read env d" "can_write env d" "2 \<le> retries"
    and "length groups = nat retries"
    and "list_all (\<lambda>(loc, bs). length bs = nat (retries - 1)
        \<and> list_all (\<lambda>b. toLowerCase (sha1 b) \<noteq> toLowerCase h) bs) groups"
    and "\<forall>c. fs d = Some c \<longrightarrow> toLowerCase (sha1 c) \<noteq> toLowerCase h"
  shows "downloadFile env sha1 url d retries (Some h) (fs, redirected_attempts groups @ rest) =
       (Inl HashVerificationFailed,
        (fs(temp_path d := None, d \<mapsto> last (snd (last groups))), rest))"
proof -
  from assms(4,5) have ne: "groups \<noteq> []" and len: "int 0 + int (length groups) = retries"
    by auto
  note a = redirected_attempts_all_mismatch
    [where fs = fs and d = d and h = h and env = env and ?sha1.0 = sha1 and retries = retries
       and groups = groups and attempt = 0 and url = url and rest = rest,
     OF assms(1-4) ne len assms(6,7)]
  show ?thesis
  proof (cases "fs d")
    case None
    then show ?thesis using a by (subst downloadFile.simps) simp
  next
    case (Some c)
    with assms(7) have "toLowerCase (sha1 c) \<noteq> toLowerCase h" by simp
    then have "verifyHash env sha1 fs d h = Some False"
      using Some assms(2) by (simp add: verifyHash_def computeFileHash_def)
    then show ?thesis using a Some assms(1)
      by (subst downloadFile.simps) (simp add: truthy_def)
  qed
qed

text \<open>
  Claim C3, as stated, fails in its second half. Each attempt renames the downloaded
  file to the destination before the hash is verified, and nothing removes it when the
  verification fails: three attempts that each deliver \<open>corrupt\<close> for the expected hash
  \<open>good\<close> end in the hash-verification error with \<open>corrupt\<close> at the destination.
  The launcher's own download does the same after a redirect and one delivery.
\<close>

theorem hash_mismatch_leaves_corrupt_file:
  "downloadFile io_ok toy_sha1 ''https://host/a.jar'' ''libraries/a.jar'' 3 (Some ''good'')
     (Map.empty, [Ok ''corrupt'', Ok ''corrupt'', Ok ''corrupt'']) =
     (Inl HashVerificationFailed, ([''libraries/a.jar'' \<mapsto> ''corrupt''], []))
   \<and> launcher_downloadFile io_ok toy_sha1 ''https://host/a.jar'' ''libraries/a.jar''
       (Some ''good'') Map.empty [Redirect ''https://mirror/a.jar'', Ok ''corrupt''] =
     (Inl HashVerificationFailed, ([''libraries/a.jar'' \<mapsto> ''corrupt''], []))"
  by (simp add: downloadFile.simps download_attempts.simps next_response_def truthy_def
      verify_downloaded_def verifyHash_def computeFileHash_def io_ok_def toy_sha1_def
      toLowerCase_def lower_char_def temp_path_def)

text \<open>
  Claim C3, amended. For every call of the single-file download with a supplied
  \<open>expectedHash\<close>, of the utilities as of the launcher:
  \<^item> whenever the call fails with the hash-verification error, a file whose hash does not
    match \<open>expectedHash\<close> is left at the destination path;
  \<^item> when neither the file already at the destination nor any content the network delivers
    has a matching hash, the call fails (the utilities' download for \<open>retries \<ge> 1\<close>),
    whatever else the responses are;
  \<^item> when the destination is readable and writable and does not already hold a matching
    file, the failure is the hash-verification error, and the content delivered last is
    what the destination holds, in each of these runs: every one of the \<open>retries \<ge> 1\<close>
    attempts of the utilities' download receives content whose hash does not match; every
    one of its \<open>retries \<ge> 2\<close> attempts is redirected and every attempt of the redirected
    download receives such content; the launcher's download receives such content after
    any number of redirects.
\<close>

theorem hash_mismatch_fails_and_file_stays:
  "(downloadFile env sha1 url d retries e st = (Inl HashVerificationFailed, st')
      \<longrightarrow> left_behind sha1 d e st')
   \<and> (launcher_downloadFile env sha1 url d e fs2 rs2 = (Inl HashVerificationFailed, st2)
      \<longrightarrow> left_behind sha1 d e st2)
   \<and> (h \<noteq> [] \<and> 1 \<le> retries \<and> no_match sha1 d h st3
      \<longrightarrow> (\<exists>err st''. downloadFile env sha1 url d retries (Some h) st3 = (Inl err, st'')))
   \<and> (h \<noteq> [] \<and> no_match sha1 d h (fs4, rs4)
      \<longrightarrow> (\<exists>err st''. launcher_downloadFile env sha1 url d (Some h) fs4 rs4 = (Inl err, st'')))
   \<and> (h \<noteq> [] \<and> can_read env d \<and> can_write env d
        \<and> (\<forall>c. fs d = Some c \<longrightarrow> toLowerCase (sha1 c) \<noteq> toLowerCase h)
      \<longrightarrow> (1 \<le> retries \<and> length bodies = nat retries
             \<and> (\<forall>b\<in>set bodies. toLowerCase (sha1 b) \<noteq> toLowerCase h)
           \<longrightarrow> downloadFile env sha1 url d retries (Some h) (fs, map Ok bodies @ rest) =
                 (Inl HashVerificationFailed,
                  (fs(temp_path d := None, d \<mapsto> last bodies), rest)))
        \<and> (2 \<le> retries \<and> length groups = nat retries
             \<and> list_all (\<lambda>(loc, bs). length bs = nat (retries - 1)
                   \<and> list_all (\<lambda>b. toLowerCase (sha1 b) \<noteq> toLowerCase h) bs) groups
           \<longrightarrow> downloadFile env sha1 url d retries (Some h)
                   (fs, redirected_attempts groups @ rest) =
                 (Inl HashVerificationFailed,
                  (fs(temp_path d := None, d \<mapsto> last (snd (last groups))), rest)))
        \<and> (toLowerCase (sha1 body) \<noteq> toLowerCase h
           \<longrightarrow> launcher_downloadFile env sha1 url d (Some h) fs
                   (map Redirect locs @ Ok body # rest) =
                 (Inl HashVerificationFailed, (fs(temp_path d := None, d \<mapsto> body), rest))))"
proof -
  have 1: "downloadFile env sha1 url d retries e st = (Inl HashVerificationFailed, st')
      \<longrightarrow> left_behind sha1 d e st'"
    using hvf_leaves_file(1) [of env sha1 url d retries e st] by blast
  have 2: "launcher_downloadFile env sha1 url d e fs2 rs2 = (Inl HashVerificationFailed, st2)
      \<longrightarrow> left_behind sha1 d e st2"
    using launcher_hvf_leaves_file [of env sha1 url d e fs2 rs2 st2] by blast
  have 3: "h \<noteq> [] \<and> 1 \<le> retries \<and> no_match sha1 d h st3
      \<longrightarrow> (\<exists>err st''. downloadFile env sha1 url d retries (Some h) st3 = (Inl err, st''))"
  proof
    assume a: "h \<noteq> [] \<and> 1 \<le> retries \<and> no_match sha1 d h st3"
    obtain res st'' where r: "downloadFile env sha1 url d retries (Some h) st3 = (res, st'')"
      by (cases "downloadFile env sha1 url d retries (Some h) st3")
    with a never_succeeds(1) [of "Some h" h sha1 d st3 env url retries]
    have "\<exists>err. res = Inl err" by blast
    with r show "\<exists>err st''. downloadFile env sha1 url d retries (Some h) st3 = (Inl err, st'')"
      by blast
  qed
  have 4: "h \<noteq> [] \<and> no_match sha1 d h (fs4, rs4)
      \<longrightarrow> (\<exists>err st''. launcher_downloadFile env sha1 url d (Some h) fs4 rs4 = (Inl err, st''))"
  proof
    assume a: "h \<noteq> [] \<and> no_match sha1 d h (fs4, rs4)"
    obtain res st'' where r: "launcher_downloadFile env sha1 url d (Some h) fs4 rs4 = (res, st'')"
      by (cases "launcher_downloadFile env sha1 url d (Some h) fs4 rs4")
    from a have "h \<noteq> []" "no_match sha1 d h (fs4, rs4)" by blast+
    from launcher_never_succeeds [OF this r] have "\<exists>err. res = Inl err" by blast
    with r
    show "\<exists>err st''. launcher_downloadFile env sha1 url d (Some h) fs4 rs4 = (Inl err, st'')"
      by blast
  qed
  have 5: "1 \<le> retries \<and> length bodies = nat retries
             \<and> (\<forall>b\<in>set bodies. toLowerCase (sha1 b) \<noteq> toLowerCase h)
           \<longrightarrow> downloadFile env sha1 url d retries (Some h) (fs, map Ok bodies @ rest) =
                 (Inl HashVerificationFailed,
                  (fs(temp_path d := None, d \<mapsto> last bodies), rest))"
    if "h \<noteq> []" "can_read env d" "can_write env d"
      "\<forall>c. fs d = Some c \<longrightarrow> toLowerCase (sha1 c) \<noteq> toLowerCase h"
  proof
    assume "1 \<le> retries \<and> length bodies = nat retries
             \<and> (\<forall>b\<in>set bodies. toLowerCase (sha1 b) \<noteq> toLowerCase h)"
    then have b: "1 \<le> retries" "length bodies = nat retries"
      "\<forall>b\<in>set bodies. toLowerCase (sha1 b) \<noteq> toLowerCase h"
      by blast+
    show "downloadFile env sha1 url d retries (Some h) (fs, map Ok bodies @ rest) =
                 (Inl HashVerificationFailed,
                  (fs(temp_path d := None, d \<mapsto> last bodies), rest))"
      by (rule downloadFile_all_mismatch
          [where fs = fs and d = d and h = h and env = env and ?sha1.0 = sha1
             and retries = retries and bodies = bodies and url = url and rest = rest,
           OF that(1-3) b that(4)])
  qed
  have 6: "2 \<le> retries \<and> length groups = nat retries
             \<and> list_all (\<lambda>(loc, bs). length bs = nat (retries - 1)
                   \<and> list_all (\<lambda>b. toLowerCase (sha1 b) \<noteq> toLowerCase h) bs) groups
           \<longrightarrow> downloadFile env sha1 url d retries (Some h)
                   (fs, redirected_attempts groups @ rest) =
                 (Inl HashVerificationFailed,
                  (fs(temp_path d := None, d \<mapsto> last (snd (last groups))), rest))"
    if "h \<noteq> []" "can_read env d" "can_write env d"
      "\<forall>c. fs d = Some c \<longrightarrow> toLowerCase (sha1 c) \<noteq> toLowerCase h"
  proof
    assume "2 \<le> retries \<and> length groups = nat retries
             \<and> list_all (\<lambda>(loc, bs). length bs = nat (retries - 1)
                   \<and> list_all (\<lambda>b. toLowerCase (sha1 b) \<noteq> toLowerCase h) bs) groups"
    then have g: "2 \<le> retries" "length groups = nat retries"
      "list_all (\<lambda>(loc, bs). length bs = nat (retries - 1)
          \<and> list_all (\<lambda>b. toLowerCase (sha1 b) \<noteq> toLowerCase h) bs) groups"
      by blast+
    show "downloadFile env sha1 url d retries (Some h)
                   (fs, redirected_attempts groups @ rest) =
                 (Inl HashVerificationFailed,
                  (fs(temp_path d := None, d \<mapsto> last (snd (last groups))), rest))"
      by (rule downloadFile_redirected_all_mismatch
          [where fs = fs and d = d and h = h and env = env and ?sha1.0 = sha1
             and retries = retries and groups = groups and url = url and rest = rest,
           OF that(1-3) g that(4)])
  qed
  have 7: "toLowerCase (sha1 body) \<noteq> toLowerCase h
           \<longrightarrow> launcher_downloadFile env sha1 url d (Some h) fs
                   (map Redirect locs @ Ok body # rest) =
                 (Inl HashVerificationFailed, (fs(temp_path d := None, d \<mapsto> body), rest))"
    if "h \<noteq> []" "can_read env d" "can_write env d"
      "\<forall>c. fs d = Some c \<longrightarrow> toLowerCase (sha1 c) \<noteq> toLowerCase h"
  proof
    assume m: "toLowerCase (sha1 body) \<noteq> toLowerCase h"
    show "launcher_downloadFile env sha1 url d (Some h) fs
                   (map Redirect locs @ Ok body # rest) =
                 (Inl HashVerificationFailed, (fs(temp_path d := None, d \<mapsto> body), rest))"
      by (rule launcher_redirects_then_mismatch
          [where fs = fs and d = d and h = h and env = env and ?sha1.0 = sha1
             and body = body and locs = locs and url = url and rest = rest,
           OF that(1-3) m that(4)])
  qed
  from 1 2 3 4 5 6 7 show ?thesis by blast
qed

theorem hash_mismatch_fails_and_file_stays_witness:
  "''good'' \<noteq> [] \<and> can_read io_ok ''libraries/a.jar'' \<and> can_write io_ok ''libraries/a.jar''
   \<and> (2::int) \<le> 2 \<and> length [''bad1'', ''bad2''] = nat 2
   \<and> toLowerCase (toy_sha1 ''bad1'') \<noteq> toLowerCase ''good''
   \<and> toLowerCase (toy_sha1 ''bad2'') \<noteq> toLowerCase ''good''
   \<and> no_match toy_sha1 ''libraries/a.jar'' ''good''
        (Map.empty, [Redirect ''https://mirror/a.jar'', Ok ''bad1'', Status 404])
   \<and> downloadFile io_ok toy_sha1 ''https://host/a.jar'' ''libraries/a.jar'' 2 (Some ''good'')
        (Map.empty, [Ok ''bad1'', Ok ''bad2'', Status 404]) =
       (Inl HashVerificationFailed, ([''libraries/a.jar'' \<mapsto> ''bad2''], [Status 404]))
   \<and> downloadFile io_ok toy_sha1 ''https://host/a.jar'' ''libraries/a.jar'' 2 (Some ''good'')
        (Map.empty, [Redirect ''https://mirror/a.jar'', Ok ''bad1'',
                     Redirect ''https://mirror/a.jar'', Ok ''bad2'', Status 404]) =
       (Inl HashVerificationFailed, ([''libraries/a.jar'' \<mapsto> ''bad2''], [Status 404]))
   \<and> launcher_downloadFile io_ok toy_sha1 ''https://host/a.jar'' ''libraries/a.jar''
        (Some ''good'') Map.empty [Redirect ''https://mirror/a.jar'', Ok ''bad1'', Status 404] =
       (Inl HashVerificationFailed, ([''libraries/a.jar'' \<mapsto> ''bad1''], [Status 404]))
   \<and> left_behind toy_sha1 ''libraries/a.jar'' (Some ''good'')
        ([''libraries/a.jar'' \<mapsto> ''bad2''], [Status 404])
   \<and> left_behind toy_sha1 ''libraries/a.jar'' (Some ''good'')
        ([''libraries/a.jar'' \<mapsto> ''bad1''], [Status 404])
   \<and> (\<exists>err st''. downloadFile io_ok toy_sha1 ''https://host/a.jar'' ''libraries/a.jar'' 2
          (Some ''good'')
          (Map.empty, [Redirect ''https://mirror/a.jar'', Ok ''bad1'', Status 404]) = (Inl err, st''))
   \<and> (\<exists>err st''. launcher_downloadFile io_ok toy_sha1 ''https://host/a.jar'' ''libraries/a.jar''
          (Some ''good'') Map.empty
          [Redirect ''https://mirror/a.jar'', Ok ''bad1'', Status 404] = (Inl err, st''))"
proof -
  let ?d = "''libraries/a.jar''"
  let ?m = "''https://mirror/a.jar''"
  let ?rs = "[Redirect ?m, Ok ''bad1'', Status 404]"
  let ?rr = "[Redirect ?m, Ok ''bad1'', Redirect ?m, Ok ''bad2'', Status 404]"
  let ?groups = "[(?m, [''bad1'']), (?m, [''bad2''])]"
  have p: "''good'' \<noteq> [] \<and> can_read io_ok ?d \<and> can_write io_ok ?d
      \<and> (\<forall>c. (Map.empty :: path \<rightharpoonup> content) ?d = Some c
            \<longrightarrow> toLowerCase (toy_sha1 c) \<noteq> toLowerCase ''good'')"
    by (simp add: io_ok_def)
  have mm: "toLowerCase (toy_sha1 ''bad1'') \<noteq> toLowerCase ''good''"
    "toLowerCase (toy_sha1 ''bad2'') \<noteq> toLowerCase ''good''"
    by (simp_all add: toy_sha1_def toLowerCase_def lower_char_def)
  have q5: "(1::int) \<le> 2 \<and> length [''bad1'', ''bad2''] = nat 2
      \<and> (\<forall>b\<in>set [''bad1'', ''bad2'']. toLowerCase (toy_sha1 b) \<noteq> toLowerCase ''good'')"
    using mm by simp
  have q6: "(2::int) \<le> 2 \<and> length ?groups = nat 2
      \<and> list_all (\<lambda>(loc, bs). length bs = nat (2 - 1)
            \<and> list_all (\<lambda>b. toLowerCase (toy_sha1 b) \<noteq> toLowerCase ''good'') bs) ?groups"
    using mm by simp
  have nm: "no_match toy_sha1 ?d ''good'' (Map.empty, ?rs)"
    using mm by (simp add: no_match_def)
  have q3: "''good'' \<noteq> [] \<and> (1::int) \<le> 2 \<and> no_match toy_sha1 ?d ''good'' (Map.empty, ?rs)"
    using nm by simp
  have u2: "(Map.empty :: path \<rightharpoonup> content)
      (temp_path ?d := None, ?d \<mapsto> last [''bad1'', ''bad2'']) = [?d \<mapsto> ''bad2'']"
    by simp
  have u6: "(Map.empty :: path \<rightharpoonup> content)
      (temp_path ?d := None, ?d \<mapsto> last (snd (last ?groups))) = [?d \<mapsto> ''bad2'']"
    by simp
  have u1: "(Map.empty :: path \<rightharpoonup> content)
      (temp_path ?d := None, ?d \<mapsto> ''bad1'') = [?d \<mapsto> ''bad1'']"
    by simp
  have g: "redirected_attempts ?groups @ [Status 404] = ?rr"
    by (simp add: redirected_attempts_def)
  have l: "map Redirect [?m] @ Ok ''bad1'' # [Status 404] = ?rs"
    by simp
  note t = hash_mismatch_fails_and_file_stays
    [where env = io_ok and ?sha1.0 = toy_sha1 and url = "''https://host/a.jar''"
       and d = ?d and retries = 2 and e = "Some ''good''"
       and st = "(Map.empty, ?rr)"
       and st' = "([?d \<mapsto> ''bad2''], [Status 404])"
       and ?fs2.0 = Map.empty and ?rs2.0 = ?rs
       and ?st2.0 = "([?d \<mapsto> ''bad1''], [Status 404])"
       and h = "''good''" and ?st3.0 = "(Map.empty, ?rs)"
       and ?fs4.0 = Map.empty and ?rs4.0 = ?rs
       and bodies = "[''bad1'', ''bad2'']" and fs = Map.empty
       and rest = "[Status 404]" and groups = ?groups and body = "''bad1''" and locs = "[?m]"]
  from t p q5 have r5: "downloadFile io_ok toy_sha1 ''https://host/a.jar'' ?d 2
      (Some ''good'') (Map.empty, [Ok ''bad1'', Ok ''bad2'', Status 404]) =
      (Inl HashVerificationFailed, ([?d \<mapsto> ''bad2''], [Status 404]))"
    unfolding u2 by simp
  from t p q6 have r6: "downloadFile io_ok toy_sha1 ''https://host/a.jar'' ?d 2
      (Some ''good'') (Map.empty, ?rr) =
      (Inl HashVerificationFailed, ([?d \<mapsto> ''bad2''], [Status 404]))"
    unfolding u6 g by blast
  from t p mm(1) have r7: "launcher_downloadFile io_ok toy_sha1 ''https://host/a.jar'' ?d
      (Some ''good'') Map.empty ?rs =
      (Inl HashVerificationFailed, ([?d \<mapsto> ''bad1''], [Status 404]))"
    unfolding u1 l by blast
  from t r6 have r1: "left_behind toy_sha1 ?d (Some ''good'') ([?d \<mapsto> ''bad2''], [Status 404])"
    by blast
  from t r7 have r2: "left_behind toy_sha1 ?d (Some ''good'') ([?d \<mapsto> ''bad1''], [Status 404])"
    by blast
  from t q3 have r3: "\<exists>err st''. downloadFile io_ok toy_sha1 ''https://host/a.jar'' ?d 2
          (Some ''good'') (Map.empty, ?rs) = (Inl err, st'')"
    by blast
  from t q3 have r4: "\<exists>err st''. launcher_downloadFile io_ok toy_sha1 ''https://host/a.jar'' ?d
          (Some ''good'') Map.empty ?rs = (Inl err, st'')"
    by blast
  from p mm nm r5 r6 r7 r1 r2 r3 r4 show ?thesis by simp
qed

end
